theory Spec2Isabelle
  imports Main
begin

section \<open>The state graph of FBHanoi.cpp\<close>

text \<open>
  A puzzle state is a \<open>std::vector<int>\<close>: entry \<open>i\<close> is the peg that carries disk \<open>i\<close>.
  The helper predicates of the source look only at indices below the disk they are asked
  about, so a disk with a lower index is the smaller disk. The \<open>int\<close> of the source is the
  type of the integers here: the search adds one to a peg number, to a distance and to the
  vertex count, and none of them comes near the bounds of \<open>int\<close> on input that fits in
  memory.
\<close>

datatype VertexColor = kVertexColor_White | kVertexColor_Grey | kVertexColor_Black

text \<open>
  \<open>struct Vertex\<close>. The \<open>Edge\<close> chain hanging off \<open>edgeList\<close> is the list of its
  \<open>vertexIndex\<close> fields, head first. A \<open>Vertex *\<close> is the position of the node in
  \<open>vtxList\<close> (nodes of a \<open>std::list\<close> never move); the null pointer is \<open>None\<close>.
\<close>

record Vertex =
  color :: VertexColor
  index :: int
  distance :: int
  edgeList :: "int list"
  state :: "int list"
  predecessor :: "nat option"
  lastMove :: "int \<times> int"

record Graph =
  numDisks :: int
  numPegs :: int
  numVertices :: int
  vtxList :: "Vertex list"

datatype error = NoReturnValue | NullDereference | InputExhausted

definition Cleanup :: "Graph \<Rightarrow> Graph" where
  "Cleanup g = g\<lparr>vtxList := [], numVertices := 0\<rparr>"

text \<open>
  \<open>std::equal(a.begin(), a.end(), b.begin())\<close>: the elements of \<open>a\<close> against the first
  \<open>length a\<close> elements of \<open>b\<close>. With \<open>b\<close> the shorter vector the source reads past its
  end; the model answers \<open>False\<close> there. Every vector the program compares has the length
  of the start state, so that case does not arise from \<open>main\<close>.
\<close>

fun std_equal :: "int list \<Rightarrow> int list \<Rightarrow> bool" where
  "std_equal [] ys = True"
| "std_equal (x # xs) [] = False"
| "std_equal (x # xs) (y # ys) = (if x = y then std_equal xs ys else False)"

text \<open>The scan of \<open>GetVertex\<close>: the position of the first vertex whose state matches.\<close>

fun find_vertex :: "Vertex list \<Rightarrow> int list \<Rightarrow> nat option" where
  "find_vertex [] st = None"
| "find_vertex (vtx # rest) st =
     (if std_equal (state vtx) st then Some 0 else map_option Suc (find_vertex rest st))"

text \<open>The vertex \<open>GetVertex\<close> creates: zeroed by \<open>memset\<close>, then colour, state and index.\<close>

definition newVtx :: "Graph \<Rightarrow> int list \<Rightarrow> Vertex" where
  "newVtx g st =
     \<lparr>color = kVertexColor_White, index = numVertices g, distance = 0, edgeList = [],
      state = st, predecessor = None, lastMove = (0, 0)\<rparr>"

definition GetVertex :: "Graph \<Rightarrow> int list \<Rightarrow> nat \<times> Graph" where
  "GetVertex g st =
     (case find_vertex (vtxList g) st of
        Some p \<Rightarrow> (p, g)
      | None \<Rightarrow> (length (vtxList g),
                 g\<lparr>vtxList := vtxList g @ [newVtx g st], numVertices := numVertices g + 1\<rparr>))"

text \<open>The two helper loops run \<open>i\<close> from \<open>diskRad - 1\<close> down to \<open>0\<close>.\<close>

fun PegHasSmallerDisk :: "int list \<Rightarrow> nat \<Rightarrow> int \<Rightarrow> bool" where
  "PegHasSmallerDisk st 0 peg = False"
| "PegHasSmallerDisk st (Suc i) peg = (if st ! i = peg then True else PegHasSmallerDisk st i peg)"

fun DiskNotSmallestOnPeg_from :: "int list \<Rightarrow> nat \<Rightarrow> nat \<Rightarrow> bool" where
  "DiskNotSmallestOnPeg_from st diskRad 0 = False"
| "DiskNotSmallestOnPeg_from st diskRad (Suc i) =
     (if st ! i = st ! diskRad then True else DiskNotSmallestOnPeg_from st diskRad i)"

definition DiskNotSmallestOnPeg :: "int list \<Rightarrow> nat \<Rightarrow> bool" where
  "DiskNotSmallestOnPeg st diskRad = DiskNotSmallestOnPeg_from st diskRad diskRad"

text \<open>A read and a write through a \<open>Vertex *\<close>.\<close>

definition deref :: "Graph \<Rightarrow> nat \<Rightarrow> Vertex" where
  "deref g p = vtxList g ! p"

definition modify :: "nat \<Rightarrow> (Vertex \<Rightarrow> Vertex) \<Rightarrow> Graph \<Rightarrow> Graph" where
  "modify p f g = g\<lparr>vtxList := (vtxList g)[p := f (deref g p)]\<rparr>"

text \<open>
  The two nested \<open>for\<close> loops of \<open>BuildAndExplore\<close> with their \<open>continue\<close> tests, over
  the copy \<open>curState\<close>; \<open>body\<close> is what the loops run for a disk and a peg that pass.
\<close>

definition for_each_move :: "int \<Rightarrow> int list \<Rightarrow> (nat \<Rightarrow> int \<Rightarrow> 'a \<Rightarrow> 'a) \<Rightarrow> 'a \<Rightarrow> 'a" where
  "for_each_move pegs curState body =
     fold (\<lambda>diskRad s.
             if DiskNotSmallestOnPeg curState diskRad then s
             else fold (\<lambda>peg s.
                          if peg = curState ! diskRad \<or> PegHasSmallerDisk curState diskRad peg
                          then s
                          else body diskRad peg s)
                       [0..pegs - 1] s)
          [0..<length curState]"

text \<open>
  The body of the inner loop (lines 207 to 233), on the graph and the queue \<open>bfsList\<close>.
  \<open>GetVertex\<close> never returns null, so the edges are always pushed.
\<close>

definition visit :: "nat \<Rightarrow> int list \<Rightarrow> nat \<Rightarrow> int \<Rightarrow> Graph \<times> nat list \<Rightarrow> Graph \<times> nat list" where
  "visit curVtx curState diskRad peg s =
     (let newState = curState[diskRad := peg];
          (nv, g1) = GetVertex (fst s) newState;
          g2 = modify curVtx (\<lambda>v. v\<lparr>edgeList := index (deref g1 nv) # edgeList v\<rparr>) g1;
          g3 = modify nv (\<lambda>v. v\<lparr>edgeList := index (deref g2 curVtx) # edgeList v\<rparr>) g2
      in if color (deref g3 nv) = kVertexColor_White
         then (modify nv (\<lambda>v. v\<lparr>predecessor := Some curVtx,
                                  distance := distance (deref g3 curVtx) + 1,
                                  color := kVertexColor_Grey,
                                  lastMove := (curState ! diskRad + 1, peg + 1)\<rparr>) g3,
               snd s @ [nv])
         else (g3, snd s))"

text \<open>
  One pass of the \<open>while\<close> body for the vertex just popped: every neighbour is
  visited, then the vertex turns black (line 237).
\<close>

definition explore_vertex :: "nat \<Rightarrow> Graph \<times> nat list \<Rightarrow> Graph \<times> nat list" where
  "explore_vertex curVtx s =
     (let curState = state (deref (fst s) curVtx);
          s1 = for_each_move (numPegs (fst s)) curState (visit curVtx curState) s
      in (modify curVtx (\<lambda>v. v\<lparr>color := kVertexColor_Black\<rparr>) (fst s1), snd s1))"

text \<open>
  The \<open>while\<close> loop. It need not return in general, so it is a partial function; running
  out of queue is the path of the source that reaches the closing brace without a
  \<open>return\<close>.
\<close>

partial_function (option) bfs_loop ::
  "int list \<Rightarrow> Graph \<times> nat list \<Rightarrow> ((error + int) \<times> Graph) option" where
  "bfs_loop endState s =
     (case snd s of
        [] \<Rightarrow> Some (Inl NoReturnValue, fst s)
      | curVtx # rest \<Rightarrow>
          (let s1 = explore_vertex curVtx (fst s, rest)
           in if std_equal (state (deref (fst s1) curVtx)) endState
              then Some (Inr (distance (deref (fst s1) curVtx)), fst s1)
              else bfs_loop endState s1))"

declare bfs_loop.simps [code]

text \<open>
  Line 178, \<open>startVtx->color = kVertexColor_Grey\<close>: the one write that makes the start
  vertex grey.
\<close>

definition paint_grey :: "nat \<Rightarrow> Graph \<Rightarrow> Graph" where
  "paint_grey p g = modify p (\<lambda>v. v\<lparr>color := kVertexColor_Grey\<rparr>) g"

definition BuildAndExplore ::
  "Graph \<Rightarrow> int list \<Rightarrow> int list \<Rightarrow> ((error + int) \<times> Graph) option" where
  "BuildAndExplore g startState endState =
     (let (startVtx, g1) = GetVertex (Cleanup g) startState;
          g2 = paint_grey startVtx g1
      in bfs_loop endState (g2, [startVtx]))"

text \<open>
  Equations for evaluation: the same functions, written so that a rewrite step never
  revisits the rest of the vertex list.
\<close>

fun vertex_at :: "Vertex list \<Rightarrow> nat \<Rightarrow> Vertex" where
  "vertex_at [] p = [] ! p"
| "vertex_at (v # vs) 0 = v"
| "vertex_at (v # vs) (Suc p) = vertex_at vs p"

fun modify_at :: "nat \<Rightarrow> (Vertex \<Rightarrow> Vertex) \<Rightarrow> Vertex list \<Rightarrow> Vertex list" where
  "modify_at p f [] = []"
| "modify_at 0 f (v # vs) = f v # vs"
| "modify_at (Suc p) f (v # vs) = v # modify_at p f vs"

fun find_vertex_next :: "bool \<Rightarrow> Vertex list \<Rightarrow> int list \<Rightarrow> nat option" where
  "find_vertex_next True rest st = Some 0"
| "find_vertex_next False [] st = None"
| "find_vertex_next False (vtx # rest) st =
     map_option Suc (find_vertex_next (std_equal (state vtx) st) rest st)"

text \<open>\<open>Graph(numDisks, numPegs)\<close>.\<close>

definition Graph_new :: "int \<Rightarrow> int \<Rightarrow> Graph" where
  "Graph_new nd np = \<lparr>numDisks = nd, numPegs = np, numVertices = 0, vtxList = []\<rparr>"

subsection \<open>The driver\<close>

text \<open>
  The loop of \<open>main\<close> that walks the predecessor chain (lines 326 to 330): \<open>vtx\<close> is
  pushed on the front of \<open>forwardList\<close> and replaced by its predecessor. Reading the
  predecessor of a null \<open>vtx\<close> is the error \<open>NullDereference\<close>. The result is the list and
  the pointer the loop ends with.
\<close>

fun collect :: "nat \<Rightarrow> Graph \<Rightarrow> nat option \<Rightarrow> nat list \<Rightarrow> error + (nat list \<times> nat option)" where
  "collect 0 g vtx forwardList = Inr (forwardList, vtx)"
| "collect (Suc n) g None forwardList = Inl NullDereference"
| "collect (Suc n) g (Some p) forwardList =
     collect n g (predecessor (deref g p)) (p # forwardList)"

text \<open>
  Lines 324 to 337: look the end state up, walk back \<open>numMoves\<close> times, and print the
  \<open>lastMove\<close> of every vertex of \<open>forwardList\<close> in order. The result is the list of the
  printed pairs.
\<close>

definition reconstruct :: "Graph \<Rightarrow> int list \<Rightarrow> int \<Rightarrow> error + (int \<times> int) list" where
  "reconstruct g endState numMoves =
     (let (vtx, g1) = GetVertex g endState
      in case collect (nat numMoves) g1 (Some vtx) [] of
           Inl e \<Rightarrow> Inl e
         | Inr r \<Rightarrow> Inr (map (\<lambda>p. lastMove (deref g1 p)) (fst r)))"

text \<open>
  The input is the sequence of integers \<open>GetNextInt\<close> yields. \<open>read_state n\<close> is one of
  the two reading loops: \<open>n\<close> integers, each lowered by one. The source does not test for
  the end of the input; the model stops with \<open>InputExhausted\<close>.
\<close>

fun read_state :: "nat \<Rightarrow> int list \<Rightarrow> (int list \<times> int list) option" where
  "read_state 0 toks = Some ([], toks)"
| "read_state (Suc n) [] = None"
| "read_state (Suc n) (t # toks) =
     (case read_state n toks of
        None \<Rightarrow> None
      | Some r \<Rightarrow> Some ((t - 1) # fst r, snd r))"

text \<open>
  \<open>main\<close>: the number of moves and the moves printed, or the error of the run. When
  \<open>BuildAndExplore\<close> comes back without a return value, \<open>numMoves\<close> is indeterminate and
  nothing that follows in the source is defined; the model ends there with the error.
\<close>

definition run_search ::
  "int \<Rightarrow> int \<Rightarrow> int list \<Rightarrow> int list \<Rightarrow> (error + int \<times> (int \<times> int) list) option" where
  "run_search nd np startState endState =
     (case BuildAndExplore (Graph_new nd np) startState endState of
        None \<Rightarrow> None
      | Some r \<Rightarrow>
          (case fst r of
             Inl e \<Rightarrow> Some (Inl e)
           | Inr numMoves \<Rightarrow>
               (case reconstruct (snd r) endState numMoves of
                  Inl e \<Rightarrow> Some (Inl e)
                | Inr ms \<Rightarrow> Some (Inr (numMoves, ms)))))"

definition main_prog :: "int list \<Rightarrow> (error + int \<times> (int \<times> int) list) option" where
  "main_prog toks =
     (case toks of
        nd # np # rest \<Rightarrow>
          (case read_state (nat nd) rest of
             None \<Rightarrow> Some (Inl InputExhausted)
           | Some r1 \<Rightarrow>
               (case read_state (nat nd) (snd r1) of
                  None \<Rightarrow> Some (Inl InputExhausted)
                | Some r2 \<Rightarrow> run_search nd np (fst r1) (fst r2)))
      | _ \<Rightarrow> Some (Inl InputExhausted))"


section \<open>Notions used in the statements and proofs\<close>

text \<open>
  The pairs of disk and peg for which the loops of \<open>BuildAndExplore\<close> reach their body, in
  the order they reach it: the same loops, with a body that only records the pair.
\<close>

definition generated_moves :: "int \<Rightarrow> int list \<Rightarrow> (nat \<times> int) list" where
  "generated_moves pegs curState =
     for_each_move pegs curState (\<lambda>diskRad peg acc. acc @ [(diskRad, peg)]) []"

text \<open>
  The move rule in words: disk \<open>d\<close> shares its peg with no disk of lower index, peg \<open>p\<close> is
  another peg, and no disk of lower index stands on \<open>p\<close>.
\<close>

definition legal_move :: "int \<Rightarrow> int list \<Rightarrow> nat \<Rightarrow> int \<Rightarrow> bool" where
  "legal_move pegs st d p \<longleftrightarrow>
     d < length st \<and> 0 \<le> p \<and> p < pegs \<and>
     (\<forall>i<d. st ! i \<noteq> st ! d) \<and> p \<noteq> st ! d \<and> (\<forall>i<d. st ! i \<noteq> p)"

definition move_list :: "int \<Rightarrow> int list \<Rightarrow> (nat \<times> int) list" where
  "move_list pegs cs =
     concat (map (\<lambda>d. if DiskNotSmallestOnPeg cs d then []
                       else map (Pair d)
                              (filter (\<lambda>p. \<not> (p = cs ! d \<or> PegHasSmallerDisk cs d p))
                                 [0..pegs - 1]))
                 [0..<length cs])"

text \<open>
  The shape of the graph between two visits: the counter and the indices agree with the
  positions, every state has \<open>n\<close> entries, no vertex is white, no state occurs twice.
\<close>

definition wf_graph :: "nat \<Rightarrow> Graph \<Rightarrow> bool" where
  "wf_graph n g \<longleftrightarrow>
     numVertices g = int (length (vtxList g)) \<and>
     (\<forall>i<length (vtxList g). index (vtxList g ! i) = int i) \<and>
     (\<forall>v\<in>set (vtxList g). length (state v) = n \<and> color v \<noteq> kVertexColor_White) \<and>
     distinct (map state (vtxList g))"

definition chain_inv :: "int \<Rightarrow> int list \<Rightarrow> Graph \<Rightarrow> bool" where
  "chain_inv pegs start g \<longleftrightarrow>
     vtxList g \<noteq> [] \<and> state (vtxList g ! 0) = start \<and> distance (vtxList g ! 0) = 0 \<and>
     predecessor (vtxList g ! 0) = None \<and>
     (\<forall>i<length (vtxList g). 0 \<le> distance (vtxList g ! i)) \<and>
     (\<forall>i<length (vtxList g). 0 < i \<longrightarrow>
        (\<exists>u d p. predecessor (vtxList g ! i) = Some u \<and> u < length (vtxList g) \<and>
                 distance (vtxList g ! i) = distance (vtxList g ! u) + 1 \<and>
                 legal_move pegs (state (vtxList g ! u)) d p \<and>
                 state (vtxList g ! i) = (state (vtxList g ! u))[d := p] \<and>
                 lastMove (vtxList g ! i) = (state (vtxList g ! u) ! d + 1, p + 1)))"

definition edges_inv :: "Graph \<Rightarrow> bool" where
  "edges_inv g \<longleftrightarrow>
     (\<forall>i<length (vtxList g). \<forall>e\<in>set (edgeList (vtxList g ! i)).
         0 \<le> e \<and> e < int (length (vtxList g))) \<and>
     (\<forall>i<length (vtxList g). \<forall>j<length (vtxList g).
         count_list (edgeList (vtxList g ! i)) (int j) =
         count_list (edgeList (vtxList g ! j)) (int i))"

text \<open>What holds of the graph and the queue whenever the search is between two visits.\<close>

definition run_inv :: "nat \<Rightarrow> int list \<Rightarrow> Graph \<times> nat list \<Rightarrow> bool" where
  "run_inv n start s \<longleftrightarrow>
     wf_graph n (fst s) \<and> chain_inv (numPegs (fst s)) start (fst s) \<and> edges_inv (fst s) \<and>
     (\<forall>c\<in>set (snd s). c < length (vtxList (fst s)))"

text \<open>The fields of the vertices of \<open>g\<close> that the search never rewrites, read in \<open>g'\<close>.\<close>

definition same_fields :: "Graph \<Rightarrow> Graph \<Rightarrow> bool" where
  "same_fields g g' \<longleftrightarrow>
     length (vtxList g) \<le> length (vtxList g') \<and>
     (\<forall>i<length (vtxList g).
        state (vtxList g' ! i) = state (vtxList g ! i) \<and>
        distance (vtxList g' ! i) = distance (vtxList g ! i) \<and>
        predecessor (vtxList g' ! i) = predecessor (vtxList g ! i) \<and>
        lastMove (vtxList g' ! i) = lastMove (vtxList g ! i))"

text \<open>
  The graph with which the loop starts: the start vertex alone, grey (lines 169 to 182).
\<close>

definition seeded :: "Graph \<Rightarrow> int list \<Rightarrow> Graph" where
  "seeded g startState =
     g\<lparr>numVertices := 1,
       vtxList := [\<lparr>color = kVertexColor_Grey, index = 0, distance = 0, edgeList = [],
                     state = startState, predecessor = None, lastMove = (0, 0)\<rparr>]\<rparr>"

text \<open>
  The replay check of the specification, on the printed pairs (pegs counted from one): the
  disk moved is the topmost disk of the source peg, that is the disk of lowest index there,
  and the move is refused when the source peg is empty, the destination is not a peg, or the
  topmost disk of the destination is not larger.
\<close>

fun top_disk :: "int list \<Rightarrow> int \<Rightarrow> nat option" where
  "top_disk [] peg = None"
| "top_disk (x # xs) peg = (if x = peg then Some 0 else map_option Suc (top_disk xs peg))"

definition apply_move :: "int \<Rightarrow> int list \<Rightarrow> int \<times> int \<Rightarrow> int list option" where
  "apply_move pegs st m =
     (if snd m < 1 \<or> pegs < snd m then None
      else case top_disk st (fst m - 1) of
             None \<Rightarrow> None
           | Some d \<Rightarrow>
               (case top_disk st (snd m - 1) of
                  None \<Rightarrow> Some (st[d := snd m - 1])
                | Some d' \<Rightarrow> if d < d' then Some (st[d := snd m - 1]) else None))"

fun replay :: "int \<Rightarrow> int list \<Rightarrow> (int \<times> int) list \<Rightarrow> int list option" where
  "replay pegs st [] = Some st"
| "replay pegs st (m # ms) =
     (case apply_move pegs st m of None \<Rightarrow> None | Some st' \<Rightarrow> replay pegs st' ms)"

text \<open>
  The graph the search leaves for one disk on three pegs, from peg 0 to peg 2; it serves as
  the concrete instance of the theorems below.
\<close>

definition one_disk_graph :: Graph where
  "one_disk_graph =
     \<lparr>numDisks = 1, numPegs = 3, numVertices = 3,
      vtxList =
        [\<lparr>color = kVertexColor_Black, index = 0, distance = 0, edgeList = [2, 1, 2, 1],
          state = [0], predecessor = None, lastMove = (0, 0)\<rparr>,
         \<lparr>color = kVertexColor_Black, index = 1, distance = 1, edgeList = [2, 2, 0, 0],
          state = [1], predecessor = Some 0, lastMove = (1, 2)\<rparr>,
         \<lparr>color = kVertexColor_Black, index = 2, distance = 1, edgeList = [1, 0, 1, 0],
          state = [2], predecessor = Some 0, lastMove = (1, 3)\<rparr>]\<rparr>"

text \<open>One legal move between two states, and the states within the pegs.\<close>

definition step :: "int \<Rightarrow> int list \<Rightarrow> int list \<Rightarrow> bool" where
  "step pegs s s' \<longleftrightarrow> (\<exists>d p. legal_move pegs s d p \<and> s' = s[d := p])"

definition on_pegs :: "int \<Rightarrow> int list \<Rightarrow> bool" where
  "on_pegs pegs s \<longleftrightarrow> (\<forall>x\<in>set s. 0 \<le> x \<and> x < pegs)"

text \<open>
  The queue holds the grey vertices, each once; every black vertex differs from the goal and
  has all its neighbours in the graph; every state lies within the pegs.
\<close>

definition grey_inv :: "Graph \<Rightarrow> nat list \<Rightarrow> bool" where
  "grey_inv g fq \<longleftrightarrow>
     distinct fq \<and> (\<forall>c\<in>set fq. c < length (vtxList g)) \<and>
     (\<forall>i<length (vtxList g). i \<in> set fq \<longleftrightarrow> color (vtxList g ! i) = kVertexColor_Grey)"

definition closed_inv :: "int \<Rightarrow> int list \<Rightarrow> Graph \<Rightarrow> bool" where
  "closed_inv pegs goal g \<longleftrightarrow>
     (\<forall>i<length (vtxList g). color (vtxList g ! i) = kVertexColor_Black \<longrightarrow>
        \<not> std_equal (state (vtxList g ! i)) goal \<and>
        (\<forall>s'. step pegs (state (vtxList g ! i)) s' \<longrightarrow> s' \<in> state ` set (vtxList g)))"

definition bounded_inv :: "int \<Rightarrow> Graph \<Rightarrow> bool" where
  "bounded_inv pegs g \<longleftrightarrow> (\<forall>i<length (vtxList g). on_pegs pegs (state (vtxList g ! i)))"

definition search_inv :: "int \<Rightarrow> int list \<Rightarrow> nat \<Rightarrow> int list \<Rightarrow> Graph \<times> nat list \<Rightarrow> bool" where
  "search_inv pegs goal n start s \<longleftrightarrow>
     run_inv n start s \<and> numPegs (fst s) = pegs \<and> grey_inv (fst s) (snd s) \<and>
     closed_inv pegs goal (fst s) \<and> bounded_inv pegs (fst s)"

text \<open>The states of \<open>n\<close> disks on the pegs, and what is left of them to discover.\<close>

definition state_space :: "int \<Rightarrow> nat \<Rightarrow> int list set" where
  "state_space pegs n = {s. set s \<subseteq> {0..<pegs} \<and> length s = n}"

definition work_left :: "int \<Rightarrow> nat \<Rightarrow> Graph \<times> nat list \<Rightarrow> nat" where
  "work_left pegs n s =
     2 * (card (state_space pegs n) - length (vtxList (fst s))) + length (snd s)"

text \<open>
  Well-formed input in the words of the specification: positive counts, both states of
  \<open>numDisks\<close> entries, every entry a peg.
\<close>

definition valid_input :: "int \<Rightarrow> int \<Rightarrow> int list \<Rightarrow> int list \<Rightarrow> bool" where
  "valid_input nd np startState endState \<longleftrightarrow>
     0 < nd \<and> 0 < np \<and> length startState = nat nd \<and> length endState = nat nd \<and>
     (\<forall>x\<in>set startState. 0 \<le> x \<and> x < np) \<and> (\<forall>x\<in>set endState. 0 \<le> x \<and> x < np)"










text \<open>
  The entries the exploration of a vertex leaves: vertex \<open>i\<close> has been explored (it is
  black) and a legal move leads from its state to the state of vertex \<open>j\<close>. Each such
  traversal puts one entry for \<open>j\<close> into the edge list of \<open>i\<close> and one entry for \<open>i\<close> into the
  edge list of \<open>j\<close>.
\<close>

definition recorded :: "int \<Rightarrow> Graph \<Rightarrow> nat \<Rightarrow> nat \<Rightarrow> nat" where
  "recorded pegs g i j =
     (if color (vtxList g ! i) = kVertexColor_Black \<and>
         step pegs (state (vtxList g ! i)) (state (vtxList g ! j))
      then 1 else 0)"

text \<open>
  The number of entries while vertex \<open>cur\<close> is being explored and the moves to the states
  \<open>T\<close> have been made from it; and the neighbours of the explored vertices are in the graph.
\<close>

definition exact_inv :: "int \<Rightarrow> Graph \<Rightarrow> nat \<Rightarrow> int list set \<Rightarrow> bool" where
  "exact_inv pegs g cur T \<longleftrightarrow>
     (\<forall>i<length (vtxList g). \<forall>j<length (vtxList g).
        count_list (edgeList (vtxList g ! i)) (int j) =
          recorded pegs g i j + recorded pegs g j i +
          (if i = cur \<and> state (vtxList g ! j) \<in> T then 1 else 0) +
          (if j = cur \<and> state (vtxList g ! i) \<in> T then 1 else 0))"

definition nbrs_inv :: "int \<Rightarrow> Graph \<Rightarrow> bool" where
  "nbrs_inv pegs g \<longleftrightarrow>
     (\<forall>i<length (vtxList g). color (vtxList g ! i) = kVertexColor_Black \<longrightarrow>
        (\<forall>s'. step pegs (state (vtxList g ! i)) s' \<longrightarrow> s' \<in> state ` set (vtxList g)))"

text \<open>
  What one visit writes to the edge lists (lines 214 to 222), read between the graph \<open>g1\<close>
  that \<open>GetVertex\<close> hands back with the vertex \<open>nv\<close> and the graph \<open>g'\<close> the visit leaves:
  the index of \<open>nv\<close> is put in front of the edge list of \<open>cur\<close> and the index of \<open>cur\<close> in
  front of the edge list of \<open>nv\<close>, whatever the colour of \<open>nv\<close>; no other edge list changes.
\<close>

definition visit_records :: "nat \<Rightarrow> nat \<Rightarrow> Graph \<Rightarrow> Graph \<Rightarrow> bool" where
  "visit_records cur nv g1 g' \<longleftrightarrow>
     length (vtxList g') = length (vtxList g1) \<and>
     (\<forall>i<length (vtxList g1).
        edgeList (vtxList g' ! i) =
          (if i = nv then [index (vtxList g1 ! cur)] else []) @
          (if i = cur then [index (vtxList g1 ! nv)] else []) @
          edgeList (vtxList g1 ! i))"

text \<open>
  The invariant of the loop for the edge lists: between two passes of the body no vertex is
  being explored, so the entries are exactly those the explored vertices have left.
\<close>

definition edge_inv :: "nat \<Rightarrow> int list \<Rightarrow> Graph \<times> nat list \<Rightarrow> bool" where
  "edge_inv n start s \<longleftrightarrow>
     run_inv n start s \<and> grey_inv (fst s) (snd s) \<and> nbrs_inv (numPegs (fst s)) (fst s) \<and>
     exact_inv (numPegs (fst s)) (fst s) 0 {}"

section \<open>Evaluation\<close>

lemma vertex_at_nth: "vertex_at vs p = vs ! p"
  by (induction vs p rule: vertex_at.induct) simp_all

lemma deref_code [code]: "deref g p = vertex_at (vtxList g) p"
  by (simp add: deref_def vertex_at_nth)

lemma modify_at_update: "modify_at p f vs = vs[p := f (vs ! p)]"
  by (induction p f vs rule: modify_at.induct) simp_all

lemma modify_code [code]: "modify p f g = g\<lparr>vtxList := modify_at p f (vtxList g)\<rparr>"
  by (simp add: modify_def deref_def modify_at_update)

lemma find_vertex_next_eq:
  "find_vertex_next b vs st = (if b then Some 0 else map_option Suc (find_vertex vs st))"
  by (induction b vs st rule: find_vertex_next.induct) simp_all

lemma find_vertex_code [code]:
  "find_vertex [] st = None"
  "find_vertex (vtx # rest) st = find_vertex_next (std_equal (state vtx) st) rest st"
  by (simp_all add: find_vertex_next_eq)


section \<open>The helper loops and the moves they generate\<close>

lemma std_equal_same_length: "length a = length b \<Longrightarrow> std_equal a b \<longleftrightarrow> a = b"
  by (induction a b rule: std_equal.induct) auto

lemma std_equal_refl: "std_equal a a"
  by (simp add: std_equal_same_length)

lemma PegHasSmallerDisk_iff: "PegHasSmallerDisk st d peg \<longleftrightarrow> (\<exists>i<d. st ! i = peg)"
  by (induction d) (auto simp: less_Suc_eq)

lemma DiskNotSmallestOnPeg_from_iff:
  "DiskNotSmallestOnPeg_from st d k \<longleftrightarrow> (\<exists>i<k. st ! i = st ! d)"
  by (induction k) (auto simp: less_Suc_eq)

lemma DiskNotSmallestOnPeg_iff: "DiskNotSmallestOnPeg st d \<longleftrightarrow> (\<exists>i<d. st ! i = st ! d)"
  by (simp add: DiskNotSmallestOnPeg_def DiskNotSmallestOnPeg_from_iff)

lemma fold_skip: "fold (\<lambda>x s. if c x then s else f x s) xs s = fold f (filter (\<lambda>x. \<not> c x) xs) s"
  by (induction xs arbitrary: s) auto

lemma fold_concat_map: "fold (\<lambda>x s. fold f (g x) s) xs s = fold f (concat (map g xs)) s"
  by (induction xs arbitrary: s) auto

lemma for_each_move_fold:
  "for_each_move pegs cs body s = fold (\<lambda>m. body (fst m) (snd m)) (move_list pegs cs) s"
proof -
  have inner: "\<And>d s. (if DiskNotSmallestOnPeg cs d then s
             else fold (\<lambda>peg s. if peg = cs ! d \<or> PegHasSmallerDisk cs d peg then s
                          else body d peg s) [0..pegs - 1] s)
        = fold (\<lambda>m. body (fst m) (snd m))
            (if DiskNotSmallestOnPeg cs d then []
             else map (Pair d) (filter (\<lambda>p. \<not> (p = cs ! d \<or> PegHasSmallerDisk cs d p)) [0..pegs - 1])) s"
    by (simp add: fold_skip fold_map comp_def)
  show ?thesis
    unfolding for_each_move_def move_list_def inner
    by (rule fold_concat_map)
qed

lemma fold_snoc_acc: "fold (\<lambda>m acc. acc @ [g m]) xs acc = acc @ map g xs"
  by (induction xs arbitrary: acc) auto

lemma generated_moves_eq: "generated_moves pegs cs = move_list pegs cs"
  by (simp add: generated_moves_def for_each_move_fold fold_snoc_acc)

lemma set_move_list:
  "set (move_list pegs cs) = {(d, p). legal_move pegs cs d p}"
  by (auto simp: move_list_def legal_move_def DiskNotSmallestOnPeg_iff PegHasSmallerDisk_iff)

lemma move_list_product:
  "move_list pegs cs =
     filter (\<lambda>m. \<not> DiskNotSmallestOnPeg cs (fst m) \<and>
                 \<not> (snd m = cs ! fst m \<or> PegHasSmallerDisk cs (fst m) (snd m)))
            (List.product [0..<length cs] [0..pegs - 1])"
proof -
  have "concat (map (\<lambda>d. if DiskNotSmallestOnPeg cs d then []
                       else map (Pair d) (filter (\<lambda>p. \<not> (p = cs ! d \<or> PegHasSmallerDisk cs d p)) ps)) ds)
      = filter (\<lambda>m. \<not> DiskNotSmallestOnPeg cs (fst m) \<and>
                 \<not> (snd m = cs ! fst m \<or> PegHasSmallerDisk cs (fst m) (snd m)))
            (List.product ds ps)" for ds ps
    by (induction ds) (auto simp: filter_map comp_def)
  then show ?thesis by (simp add: move_list_def)
qed

lemma distinct_move_list: "distinct (move_list pegs cs)"
  by (simp add: move_list_product distinct_product)


text \<open>
  Claim C2. For every state \<open>cs\<close> the loops run over, the loops invoke their body on the
  pairs of \<open>generated_moves\<close> in order and on nothing else, and the pair of disk \<open>d\<close> and
  peg \<open>p\<close> is among them exactly when \<open>d\<close> is a disk, \<open>p\<close> is a peg, no disk of index below
  \<open>d\<close> is on the peg of \<open>d\<close>, \<open>p\<close> is not the peg of \<open>d\<close>, and no disk of index below \<open>d\<close> is
  on \<open>p\<close>.
\<close>

theorem move_generated_iff_legal:
  "for_each_move pegs cs body s = fold (\<lambda>m. body (fst m) (snd m)) (generated_moves pegs cs) s \<and>
   ((d, p) \<in> set (generated_moves pegs cs) \<longleftrightarrow>
      d < length cs \<and> 0 \<le> p \<and> p < pegs \<and>
      (\<forall>i<d. cs ! i \<noteq> cs ! d) \<and> p \<noteq> cs ! d \<and> (\<forall>i<d. cs ! i \<noteq> p))"
  using set_move_list[of pegs cs]
  by (simp add: generated_moves_eq for_each_move_fold legal_move_def set_eq_iff)

theorem move_generated_iff_legal_witness:
  "(1, 2) \<in> set (generated_moves 3 [0, 1, 1]) \<and> (2, 2) \<notin> set (generated_moves 3 [0, 1, 1])"
  using move_generated_iff_legal[of 3 "[0, 1, 1]" "\<lambda>d p s. s" "()" 1 2]
    move_generated_iff_legal[of 3 "[0, 1, 1]" "\<lambda>d p s. s" "()" 2 2]
  by (simp add: less_Suc_eq numeral_2_eq_2)

section \<open>One visit\<close>

lemma find_vertex_None:
  "\<forall>v\<in>set vl. length (state v) = length st \<Longrightarrow>
   find_vertex vl st = None \<longleftrightarrow> st \<notin> state ` set vl"
  by (induction vl) (auto simp: std_equal_same_length)

lemma find_vertex_Some:
  "\<forall>v\<in>set vl. length (state v) = length st \<Longrightarrow> find_vertex vl st = Some p \<Longrightarrow>
   p < length vl \<and> state (vl ! p) = st"
  by (induction vl arbitrary: p) (auto simp: std_equal_same_length split: if_splits)

lemma visit_cases:
  assumes wf: "wf_graph n g" and cur: "cur < length (vtxList g)" and len: "length cs = n"
  shows "\<exists>g' q' j.
      visit cur cs d p (g, q) = (g', q') \<and>
      j < length (vtxList g') \<and> state (vtxList g' ! j) = cs[d := p] \<and>
      numVertices g' = int (length (vtxList g')) \<and> numPegs g' = numPegs g \<and>
      numDisks g' = numDisks g \<and>
      (\<forall>i<length (vtxList g). vtxList g' ! i =
          (vtxList g ! i)\<lparr>edgeList := (if i = j then [int cur] else []) @
                                       (if i = cur then [int j] else []) @
                                       edgeList (vtxList g ! i)\<rparr>) \<and>
      ((length (vtxList g') = length (vtxList g) \<and> j < length (vtxList g) \<and> q' = q) \<or>
       (j = length (vtxList g) \<and> length (vtxList g') = Suc (length (vtxList g)) \<and>
        q' = q @ [j] \<and> cs[d := p] \<notin> state ` set (vtxList g) \<and>
        vtxList g' ! j =
          \<lparr>color = kVertexColor_Grey, index = int j,
           distance = distance (vtxList g ! cur) + 1, edgeList = [int cur],
           state = cs[d := p], predecessor = Some cur,
           lastMove = (cs ! d + 1, p + 1)\<rparr>))"
proof -
  let ?vl = "vtxList g"
  let ?ns = "cs[d := p]"
  have lens: "\<forall>v\<in>set ?vl. length (state v) = length ?ns"
    using wf len by (simp add: wf_graph_def)
  show ?thesis
  proof (cases "find_vertex ?vl ?ns")
    case None
    then have notin: "?ns \<notin> state ` set ?vl"
      using find_vertex_None[OF lens] by simp
    show ?thesis
      using None notin wf cur
      by (auto simp: visit_def GetVertex_def modify_def deref_def newVtx_def wf_graph_def
            nth_append nth_list_update Let_def)
  next
    case (Some j)
    then have j: "j < length ?vl" "state (?vl ! j) = ?ns"
      using find_vertex_Some[OF lens] by auto
    have nw: "color (?vl ! j) \<noteq> kVertexColor_White"
      using wf j by (simp add: wf_graph_def)
    show ?thesis
      using Some j nw wf cur
      by (auto simp: visit_def GetVertex_def modify_def deref_def wf_graph_def
            nth_list_update Let_def intro!: exI[of _ j])
  qed
qed

section \<open>Invariants of the search\<close>

lemma wf_graph_nth:
  "wf_graph n g \<longleftrightarrow>
     numVertices g = int (length (vtxList g)) \<and>
     (\<forall>i<length (vtxList g). index (vtxList g ! i) = int i \<and>
        length (state (vtxList g ! i)) = n \<and> color (vtxList g ! i) \<noteq> kVertexColor_White) \<and>
     (\<forall>i<length (vtxList g). \<forall>j<length (vtxList g).
        state (vtxList g ! i) = state (vtxList g ! j) \<longrightarrow> i = j)"
  unfolding wf_graph_def distinct_conv_nth all_set_conv_all_nth
  by (auto simp: )

lemma in_states_nth:
  "st \<in> state ` set vl \<longleftrightarrow> (\<exists>i<length vl. state (vl ! i) = st)"
  unfolding set_conv_nth by auto

text \<open>What one visit leaves as it was.\<close>

lemma visit_frame:
  assumes wf: "wf_graph n g" and cur: "cur < length (vtxList g)" and len: "length cs = n"
    and v: "visit cur cs d p (g, q) = (g', q')"
  shows "wf_graph n g'" and "numPegs g' = numPegs g"
    and "length (vtxList g) \<le> length (vtxList g')"
    and "length (vtxList g') + length q = length (vtxList g) + length q'"
    and "\<forall>i<length (vtxList g).
           state (vtxList g' ! i) = state (vtxList g ! i) \<and>
           color (vtxList g' ! i) = color (vtxList g ! i) \<and>
           distance (vtxList g' ! i) = distance (vtxList g ! i) \<and>
           predecessor (vtxList g' ! i) = predecessor (vtxList g ! i) \<and>
           lastMove (vtxList g' ! i) = lastMove (vtxList g ! i)"
    and "cs[d := p] \<in> state ` set (vtxList g')"
proof -
  from visit_cases[OF wf cur len, of d p q] v obtain j where
    j: "j < length (vtxList g')" "state (vtxList g' ! j) = cs[d := p]"
    and nv: "numVertices g' = int (length (vtxList g'))" "numPegs g' = numPegs g"
    and old: "\<forall>i<length (vtxList g). vtxList g' ! i =
          (vtxList g ! i)\<lparr>edgeList := (if i = j then [int cur] else []) @
                                       (if i = cur then [int j] else []) @
                                       edgeList (vtxList g ! i)\<rparr>"
    and cases: "(length (vtxList g') = length (vtxList g) \<and> j < length (vtxList g) \<and> q' = q) \<or>
       (j = length (vtxList g) \<and> length (vtxList g') = Suc (length (vtxList g)) \<and>
        q' = q @ [j] \<and> cs[d := p] \<notin> state ` set (vtxList g) \<and>
        vtxList g' ! j =
          \<lparr>color = kVertexColor_Grey, index = int j,
           distance = distance (vtxList g ! cur) + 1, edgeList = [int cur],
           state = cs[d := p], predecessor = Some cur,
           lastMove = (cs ! d + 1, p + 1)\<rparr>)"
    by auto
  show "numPegs g' = numPegs g" by (rule nv)
  show "length (vtxList g) \<le> length (vtxList g')" using cases by auto
  show "length (vtxList g') + length q = length (vtxList g) + length q'" using cases by auto
  show frame: "\<forall>i<length (vtxList g).
           state (vtxList g' ! i) = state (vtxList g ! i) \<and>
           color (vtxList g' ! i) = color (vtxList g ! i) \<and>
           distance (vtxList g' ! i) = distance (vtxList g ! i) \<and>
           predecessor (vtxList g' ! i) = predecessor (vtxList g ! i) \<and>
           lastMove (vtxList g' ! i) = lastMove (vtxList g ! i)"
    using old by simp
  show "cs[d := p] \<in> state ` set (vtxList g')"
    using j by (auto simp: in_states_nth)
  have wfn: "numVertices g = int (length (vtxList g))"
     "\<forall>i<length (vtxList g). index (vtxList g ! i) = int i \<and>
        length (state (vtxList g ! i)) = n \<and> color (vtxList g ! i) \<noteq> kVertexColor_White"
     "\<forall>i<length (vtxList g). \<forall>j<length (vtxList g).
        state (vtxList g ! i) = state (vtxList g ! j) \<longrightarrow> i = j"
    using wf by (simp_all add: wf_graph_nth)
  from cases show "wf_graph n g'"
  proof
    assume c: "length (vtxList g') = length (vtxList g) \<and> j < length (vtxList g) \<and> q' = q"
    show ?thesis
      unfolding wf_graph_nth using c nv wfn old by simp
  next
    assume c: "j = length (vtxList g) \<and> length (vtxList g') = Suc (length (vtxList g)) \<and>
        q' = q @ [j] \<and> cs[d := p] \<notin> state ` set (vtxList g) \<and>
        vtxList g' ! j =
          \<lparr>color = kVertexColor_Grey, index = int j,
           distance = distance (vtxList g ! cur) + 1, edgeList = [int cur],
           state = cs[d := p], predecessor = Some cur,
           lastMove = (cs ! d + 1, p + 1)\<rparr>"
    then have notin: "\<forall>i<length (vtxList g). state (vtxList g ! i) \<noteq> cs[d := p]"
      by (auto simp: in_states_nth)
    have 1: "\<forall>i<length (vtxList g'). index (vtxList g' ! i) = int i \<and>
        length (state (vtxList g' ! i)) = n \<and> color (vtxList g' ! i) \<noteq> kVertexColor_White"
      using c wfn(2) old len by (auto simp: less_Suc_eq)
    have 2: "\<forall>i<length (vtxList g'). \<forall>k<length (vtxList g').
        state (vtxList g' ! i) = state (vtxList g' ! k) \<longrightarrow> i = k"
      using c wfn(3) frame notin j(2) by (auto simp: less_Suc_eq)
    show ?thesis
      unfolding wf_graph_nth using nv 1 2 by simp
  qed
qed

lemma visit_elim [consumes 4, case_names old new]:
  assumes wf: "wf_graph n g" and cur: "cur < length (vtxList g)" and len: "length cs = n"
    and v: "visit cur cs d p (g, q) = (g', q')"
  obtains
    (old) j where "j < length (vtxList g)" "state (vtxList g ! j) = cs[d := p]" "q' = q"
      "length (vtxList g') = length (vtxList g)"
      "\<forall>i<length (vtxList g). vtxList g' ! i =
          (vtxList g ! i)\<lparr>edgeList := (if i = j then [int cur] else []) @
                                       (if i = cur then [int j] else []) @
                                       edgeList (vtxList g ! i)\<rparr>"
  | (new) "q' = q @ [length (vtxList g)]"
      "length (vtxList g') = Suc (length (vtxList g))"
      "cs[d := p] \<notin> state ` set (vtxList g)"
      "vtxList g' ! length (vtxList g) =
          \<lparr>color = kVertexColor_Grey, index = int (length (vtxList g)),
           distance = distance (vtxList g ! cur) + 1, edgeList = [int cur],
           state = cs[d := p], predecessor = Some cur,
           lastMove = (cs ! d + 1, p + 1)\<rparr>"
      "\<forall>i<length (vtxList g). vtxList g' ! i =
          (vtxList g ! i)\<lparr>edgeList := (if i = cur then [int (length (vtxList g))] else []) @
                                       edgeList (vtxList g ! i)\<rparr>"
proof -
  from visit_cases[OF wf cur len, of d p q] v obtain j where
    frm: "\<forall>i<length (vtxList g). vtxList g' ! i =
          (vtxList g ! i)\<lparr>edgeList := (if i = j then [int cur] else []) @
                                       (if i = cur then [int j] else []) @
                                       edgeList (vtxList g ! i)\<rparr>"
    and cases: "(length (vtxList g') = length (vtxList g) \<and> j < length (vtxList g) \<and> q' = q) \<or>
       (j = length (vtxList g) \<and> length (vtxList g') = Suc (length (vtxList g)) \<and>
        q' = q @ [j] \<and> cs[d := p] \<notin> state ` set (vtxList g) \<and>
        vtxList g' ! j =
          \<lparr>color = kVertexColor_Grey, index = int j,
           distance = distance (vtxList g ! cur) + 1, edgeList = [int cur],
           state = cs[d := p], predecessor = Some cur,
           lastMove = (cs ! d + 1, p + 1)\<rparr>)"
    and st: "j < length (vtxList g')" "state (vtxList g' ! j) = cs[d := p]"
    by auto
  from cases show thesis
  proof
    assume c: "length (vtxList g') = length (vtxList g) \<and> j < length (vtxList g) \<and> q' = q"
    then have "state (vtxList g ! j) = cs[d := p]" using st frm by auto
    then show thesis using c frm by (intro old[of j]) auto
  next
    assume c: "j = length (vtxList g) \<and> length (vtxList g') = Suc (length (vtxList g)) \<and>
        q' = q @ [j] \<and> cs[d := p] \<notin> state ` set (vtxList g) \<and>
        vtxList g' ! j =
          \<lparr>color = kVertexColor_Grey, index = int j,
           distance = distance (vtxList g ! cur) + 1, edgeList = [int cur],
           state = cs[d := p], predecessor = Some cur,
           lastMove = (cs ! d + 1, p + 1)\<rparr>"
    have "\<forall>i<length (vtxList g). vtxList g' ! i =
          (vtxList g ! i)\<lparr>edgeList := (if i = cur then [int (length (vtxList g))] else []) @
                                       edgeList (vtxList g ! i)\<rparr>"
      using frm c by auto
    then show thesis using c by (intro new) auto
  qed
qed

lemma chain_inv_extend:
  assumes ch: "chain_inv pegs start g"
    and le: "length (vtxList g) \<le> length (vtxList g')"
    and same: "\<forall>i<length (vtxList g). state (vtxList g' ! i) = state (vtxList g ! i) \<and>
       distance (vtxList g' ! i) = distance (vtxList g ! i) \<and>
       predecessor (vtxList g' ! i) = predecessor (vtxList g ! i) \<and>
       lastMove (vtxList g' ! i) = lastMove (vtxList g ! i)"
    and fresh: "\<forall>i<length (vtxList g'). length (vtxList g) \<le> i \<longrightarrow>
       0 \<le> distance (vtxList g' ! i) \<and>
       (\<exists>u d p. predecessor (vtxList g' ! i) = Some u \<and> u < length (vtxList g) \<and>
                 distance (vtxList g' ! i) = distance (vtxList g ! u) + 1 \<and>
                 legal_move pegs (state (vtxList g ! u)) d p \<and>
                 state (vtxList g' ! i) = (state (vtxList g ! u))[d := p] \<and>
                 lastMove (vtxList g' ! i) = (state (vtxList g ! u) ! d + 1, p + 1))"
  shows "chain_inv pegs start g'"
proof -
  let ?vl = "vtxList g" and ?vl' = "vtxList g'"
  have ne: "0 < length ?vl" using ch by (simp add: chain_inv_def)
  have zero: "?vl' \<noteq> [] \<and> state (?vl' ! 0) = start \<and> distance (?vl' ! 0) = 0 \<and>
        predecessor (?vl' ! 0) = None"
    using ch same ne le by (auto simp: chain_inv_def)
  have dist: "\<forall>i<length ?vl'. 0 \<le> distance (?vl' ! i)"
  proof (intro allI impI)
    fix i assume "i < length ?vl'"
    then show "0 \<le> distance (?vl' ! i)"
      using ch same fresh by (cases "i < length ?vl") (auto simp: chain_inv_def)
  qed
  have pred: "\<forall>i<length ?vl'. 0 < i \<longrightarrow> (\<exists>u d p. predecessor (?vl' ! i) = Some u \<and> u < length ?vl' \<and>
                 distance (?vl' ! i) = distance (?vl' ! u) + 1 \<and>
                 legal_move pegs (state (?vl' ! u)) d p \<and>
                 state (?vl' ! i) = (state (?vl' ! u))[d := p] \<and>
                 lastMove (?vl' ! i) = (state (?vl' ! u) ! d + 1, p + 1))"
  proof (intro allI impI)
    fix i assume i: "i < length ?vl'" "0 < i"
    have "\<exists>u d p. predecessor (?vl' ! i) = Some u \<and> u < length ?vl \<and>
                 distance (?vl' ! i) = distance (?vl ! u) + 1 \<and>
                 legal_move pegs (state (?vl ! u)) d p \<and>
                 state (?vl' ! i) = (state (?vl ! u))[d := p] \<and>
                 lastMove (?vl' ! i) = (state (?vl ! u) ! d + 1, p + 1)"
    proof (cases "i < length ?vl")
      case True
      then show ?thesis using ch i(2) same unfolding chain_inv_def by simp
    next
      case False
      then show ?thesis using fresh i(1) by simp
    qed
    then obtain u d p where u: "predecessor (?vl' ! i) = Some u" "u < length ?vl"
                 "distance (?vl' ! i) = distance (?vl ! u) + 1"
                 "legal_move pegs (state (?vl ! u)) d p"
                 "state (?vl' ! i) = (state (?vl ! u))[d := p]"
                 "lastMove (?vl' ! i) = (state (?vl ! u) ! d + 1, p + 1)"
      by blast
    show "\<exists>u d p. predecessor (?vl' ! i) = Some u \<and> u < length ?vl' \<and>
                 distance (?vl' ! i) = distance (?vl' ! u) + 1 \<and>
                 legal_move pegs (state (?vl' ! u)) d p \<and>
                 state (?vl' ! i) = (state (?vl' ! u))[d := p] \<and>
                 lastMove (?vl' ! i) = (state (?vl' ! u) ! d + 1, p + 1)"
      using u same le by (intro exI[of _ u] exI[of _ d] exI[of _ p]) simp
  qed
  show ?thesis
    unfolding chain_inv_def using zero dist pred by simp
qed

lemma visit_chain:
  assumes wf: "wf_graph n g" and cur: "cur < length (vtxList g)"
    and cs: "state (vtxList g ! cur) = cs"
    and v: "visit cur cs d p (g, q) = (g', q')"
    and legal: "legal_move pegs cs d p"
    and ch: "chain_inv pegs start g"
  shows "chain_inv pegs start g'"
proof -
  have len: "length cs = n" using wf cur cs by (auto simp: wf_graph_nth)
  let ?vl = "vtxList g" and ?vl' = "vtxList g'"
  from wf cur len v show ?thesis
  proof (cases rule: visit_elim)
    case (old j)
    show ?thesis
      using old(4,5) by (intro chain_inv_extend[OF ch]) simp_all
  next
    case new
    have d0: "0 \<le> distance (?vl ! cur)" using ch cur by (simp add: chain_inv_def)
    have fresh: "\<forall>i<length ?vl'. length ?vl \<le> i \<longrightarrow>
       0 \<le> distance (?vl' ! i) \<and>
       (\<exists>u d p. predecessor (?vl' ! i) = Some u \<and> u < length ?vl \<and>
                 distance (?vl' ! i) = distance (?vl ! u) + 1 \<and>
                 legal_move pegs (state (?vl ! u)) d p \<and>
                 state (?vl' ! i) = (state (?vl ! u))[d := p] \<and>
                 lastMove (?vl' ! i) = (state (?vl ! u) ! d + 1, p + 1))"
    proof (intro allI impI)
      fix i assume "i < length ?vl'" "length ?vl \<le> i"
      then have i: "i = length ?vl" using new(2) by simp
      have "\<exists>u d p. predecessor (?vl' ! i) = Some u \<and> u < length ?vl \<and>
                 distance (?vl' ! i) = distance (?vl ! u) + 1 \<and>
                 legal_move pegs (state (?vl ! u)) d p \<and>
                 state (?vl' ! i) = (state (?vl ! u))[d := p] \<and>
                 lastMove (?vl' ! i) = (state (?vl ! u) ! d + 1, p + 1)"
        unfolding i using new(4) cur cs legal
        by (intro exI[of _ cur] exI[of _ d] exI[of _ p]) simp
      moreover have "0 \<le> distance (?vl' ! i)"
        unfolding i using new(4) d0 by simp
      ultimately show "0 \<le> distance (?vl' ! i) \<and>
       (\<exists>u d p. predecessor (?vl' ! i) = Some u \<and> u < length ?vl \<and>
                 distance (?vl' ! i) = distance (?vl ! u) + 1 \<and>
                 legal_move pegs (state (?vl ! u)) d p \<and>
                 state (?vl' ! i) = (state (?vl ! u))[d := p] \<and>
                 lastMove (?vl' ! i) = (state (?vl ! u) ! d + 1, p + 1))"
        by simp
    qed
    show ?thesis
      using new(2,5) fresh by (intro chain_inv_extend[OF ch]) simp_all
  qed
qed

lemma visit_edges:
  assumes wf: "wf_graph n g" and cur: "cur < length (vtxList g)"
    and len: "length cs = n"
    and v: "visit cur cs d p (g, q) = (g', q')"
    and ed: "edges_inv g"
  shows "edges_inv g'"
proof -
  let ?vl = "vtxList g" and ?vl' = "vtxList g'"
  have bnd: "\<forall>i<length ?vl. \<forall>e\<in>set (edgeList (?vl ! i)). 0 \<le> e \<and> e < int (length ?vl)"
    and sym: "\<forall>i<length ?vl. \<forall>j<length ?vl.
         count_list (edgeList (?vl ! i)) (int j) = count_list (edgeList (?vl ! j)) (int i)"
    using ed by (simp_all add: edges_inv_def)
  from wf cur len v show ?thesis
  proof (cases rule: visit_elim)
    case (old j)
    have E: "\<forall>i<length ?vl. edgeList (?vl' ! i) =
        (if i = j then [int cur] else []) @ (if i = cur then [int j] else []) @ edgeList (?vl ! i)"
      using old(5) by simp
    have 1: "\<forall>i<length ?vl'. \<forall>e\<in>set (edgeList (?vl' ! i)). 0 \<le> e \<and> e < int (length ?vl')"
      using E bnd old(1,4) cur by auto
    have 2: "\<forall>i<length ?vl'. \<forall>k<length ?vl'.
         count_list (edgeList (?vl' ! i)) (int k) = count_list (edgeList (?vl' ! k)) (int i)"
      using E sym old(4) by auto
    show ?thesis unfolding edges_inv_def using 1 2 by simp
  next
    case new
    let ?m = "length ?vl"
    have E: "\<forall>i<?m. edgeList (?vl' ! i) = (if i = cur then [int ?m] else []) @ edgeList (?vl ! i)"
      using new(5) by simp
    have Em: "edgeList (?vl' ! ?m) = [int cur]" using new(4) by simp
    have zero: "\<forall>i<?m. count_list (edgeList (?vl ! i)) (int ?m) = 0"
      using bnd by (auto simp: count_list_0_iff)
    have 1: "\<forall>i<length ?vl'. \<forall>e\<in>set (edgeList (?vl' ! i)). 0 \<le> e \<and> e < int (length ?vl')"
      using E Em bnd new(2) cur by (fastforce simp: less_Suc_eq)
    have 2: "\<forall>i<length ?vl'. \<forall>k<length ?vl'.
         count_list (edgeList (?vl' ! i)) (int k) = count_list (edgeList (?vl' ! k)) (int i)"
      using E Em sym zero new(2) cur by (auto simp: less_Suc_eq)
    show ?thesis unfolding edges_inv_def using 1 2 by simp
  qed
qed

text \<open>A property kept by every step of a fold is kept by the fold.\<close>

lemma fold_invariant:
  assumes "P s" and "\<And>x s. x \<in> set xs \<Longrightarrow> P s \<Longrightarrow> P (f x s)"
  shows "P (fold f xs s)"
  using assms by (induction xs arbitrary: s) auto

lemma fold_invariant_each:
  assumes "P s"
    and step: "\<And>x s. x \<in> set xs \<Longrightarrow> P s \<Longrightarrow> P (f x s) \<and> Q x (f x s)"
    and keep: "\<And>x y s. y \<in> set xs \<Longrightarrow> P s \<Longrightarrow> Q x s \<Longrightarrow> Q x (f y s)"
  shows "P (fold f xs s) \<and> (\<forall>x\<in>set xs. Q x (fold f xs s))"
  using assms
proof (induction xs arbitrary: s rule: rev_induct)
  case Nil
  then show ?case by simp
next
  case (snoc y ys)
  have IH: "P (fold f ys s) \<and> (\<forall>x\<in>set ys. Q x (fold f ys s))"
    using snoc.prems by (intro snoc.IH) auto
  have "P (f y (fold f ys s)) \<and> Q y (f y (fold f ys s))"
    using IH snoc.prems(2)[of y "fold f ys s"] by simp
  moreover have "\<forall>x\<in>set ys. Q x (f y (fold f ys s))"
    using IH snoc.prems(3)[of y "fold f ys s"] by simp
  ultimately show ?case by simp
qed

lemma same_fields_refl: "same_fields g g"
  by (simp add: same_fields_def)

lemma same_fields_trans: "same_fields g g' \<Longrightarrow> same_fields g' g'' \<Longrightarrow> same_fields g g''"
  by (auto simp: same_fields_def)

lemma visit_same_fields:
  assumes "wf_graph n g" "cur < length (vtxList g)" "length cs = n"
    "visit cur cs d p (g, q) = (g', q')"
  shows "same_fields g g'"
  using visit_frame(3,5)[OF assms] by (simp add: same_fields_def)

lemma visit_queue:
  assumes "wf_graph n g" "cur < length (vtxList g)" "length cs = n"
    "visit cur cs d p (g, q) = (g', q')" "\<forall>c\<in>set q. c < length (vtxList g)"
  shows "\<forall>c\<in>set q'. c < length (vtxList g')"
  using assms(1-4)
proof (cases rule: visit_elim)
  case (old j)
  then show ?thesis using assms(5) by simp
next
  case new
  then show ?thesis using assms(5) by (auto simp: less_Suc_eq)
qed

lemma visit_run_inv:
  assumes inv: "run_inv n start (g, q)" and cur: "cur < length (vtxList g)"
    and cs: "state (vtxList g ! cur) = cs"
    and legal: "legal_move (numPegs g) cs d p"
  shows "run_inv n start (visit cur cs d p (g, q))"
    and "same_fields g (fst (visit cur cs d p (g, q)))"
    and "numPegs (fst (visit cur cs d p (g, q))) = numPegs g"
proof -
  obtain g' q' where v: "visit cur cs d p (g, q) = (g', q')" by (cases "visit cur cs d p (g, q)")
  have wf: "wf_graph n g" using inv by (simp add: run_inv_def)
  have len: "length cs = n" using wf cur cs by (auto simp: wf_graph_nth)
  have np: "numPegs g' = numPegs g" by (rule visit_frame(2)[OF wf cur len v])
  have "wf_graph n g'" by (rule visit_frame(1)[OF wf cur len v])
  moreover have "chain_inv (numPegs g') start g'"
    unfolding np using inv by (intro visit_chain[OF wf cur cs v legal]) (simp add: run_inv_def)
  moreover have "edges_inv g'"
    using inv by (intro visit_edges[OF wf cur len v]) (simp add: run_inv_def)
  moreover have "\<forall>c\<in>set q'. c < length (vtxList g')"
    using inv by (intro visit_queue[OF wf cur len v]) (simp add: run_inv_def)
  ultimately show "run_inv n start (visit cur cs d p (g, q))"
    by (simp add: v run_inv_def)
  show "same_fields g (fst (visit cur cs d p (g, q)))"
    using visit_same_fields[OF wf cur len v] by (simp add: v)
  show "numPegs (fst (visit cur cs d p (g, q))) = numPegs g"
    using np by (simp add: v)
qed

text \<open>Turning a vertex black.\<close>

lemma blacken_nth:
  "vtxList (modify c (\<lambda>v. v\<lparr>color := kVertexColor_Black\<rparr>) g) =
     (vtxList g)[c := (vtxList g ! c)\<lparr>color := kVertexColor_Black\<rparr>]"
  by (simp add: modify_def deref_def)

lemma nth_blacken:
  "i < length vl \<Longrightarrow>
   vl[c := (vl ! c)\<lparr>color := kVertexColor_Black\<rparr>] ! i =
     (if i = c then (vl ! i)\<lparr>color := kVertexColor_Black\<rparr> else vl ! i)"
  by (cases "c < length vl") (auto simp: nth_list_update)

lemma blacken_run_inv:
  assumes inv: "run_inv n start (g, q)"
  shows "run_inv n start (modify c (\<lambda>v. v\<lparr>color := kVertexColor_Black\<rparr>) g, q)"
proof -
  let ?g' = "modify c (\<lambda>v. v\<lparr>color := kVertexColor_Black\<rparr>) g"
  have vl: "vtxList ?g' = (vtxList g)[c := (vtxList g ! c)\<lparr>color := kVertexColor_Black\<rparr>]"
    by (rule blacken_nth)
  have other: "numVertices ?g' = numVertices g" "numPegs ?g' = numPegs g"
    by (simp_all add: modify_def)
  have wfg: "wf_graph n g" using inv by (simp add: run_inv_def)
  have ms: "map state (vtxList ?g') = map state (vtxList g)"
    by (cases "c < length (vtxList g)") (simp_all add: vl map_update list_update_same_conv list_update_beyond)
  have w1: "numVertices ?g' = int (length (vtxList ?g'))"
    using wfg by (simp add: wf_graph_def vl other)
  have w2: "\<forall>i<length (vtxList ?g'). index (vtxList ?g' ! i) = int i"
    using wfg by (simp add: wf_graph_def vl nth_blacken)
  have w3: "\<forall>v\<in>set (vtxList ?g'). length (state v) = n \<and> color v \<noteq> kVertexColor_White"
  proof
    fix v assume "v \<in> set (vtxList ?g')"
    then obtain i where i: "i < length (vtxList g)" "v = vtxList ?g' ! i"
      by (auto simp: in_set_conv_nth vl)
    have "vtxList g ! i \<in> set (vtxList g)" using i(1) by simp
    then have "length (state (vtxList g ! i)) = n \<and> color (vtxList g ! i) \<noteq> kVertexColor_White"
      using wfg by (simp add: wf_graph_def)
    then show "length (state v) = n \<and> color v \<noteq> kVertexColor_White"
      using i by (auto simp: vl nth_blacken)
  qed
  have w4: "distinct (map state (vtxList ?g'))"
    unfolding ms using wfg by (simp add: wf_graph_def)
  have wf: "wf_graph n ?g'"
    unfolding wf_graph_def using w1 w2 w3 w4 by blast
  have sf: "\<forall>i<length (vtxList g).
       state (vtxList ?g' ! i) = state (vtxList g ! i) \<and>
       distance (vtxList ?g' ! i) = distance (vtxList g ! i) \<and>
       predecessor (vtxList ?g' ! i) = predecessor (vtxList g ! i) \<and>
       lastMove (vtxList ?g' ! i) = lastMove (vtxList g ! i)"
    by (simp add: vl nth_blacken)
  have leq: "length (vtxList ?g') = length (vtxList g)" by (simp add: vl)
  have chg: "chain_inv (numPegs g) start g" using inv by (simp add: run_inv_def)
  have ch: "chain_inv (numPegs ?g') start ?g'"
    unfolding other
    by (rule chain_inv_extend[OF chg _ sf]) (simp_all only: leq order_refl, simp)
  have ed: "edges_inv ?g'"
    using inv unfolding run_inv_def edges_inv_def vl
    by (simp add: nth_blacken)
  show ?thesis
    using wf ch ed inv by (simp add: run_inv_def vl)
qed

lemma blacken_same_fields:
  "same_fields g (modify c (\<lambda>v. v\<lparr>color := kVertexColor_Black\<rparr>) g)"
  by (simp add: same_fields_def blacken_nth nth_blacken)

section \<open>The search as a whole\<close>

lemma explore_vertex_fold:
  "explore_vertex cur (g, q) =
     (let s1 = fold (\<lambda>m. visit cur (state (vtxList g ! cur)) (fst m) (snd m))
                 (move_list (numPegs g) (state (vtxList g ! cur))) (g, q)
      in (modify cur (\<lambda>v. v\<lparr>color := kVertexColor_Black\<rparr>) (fst s1), snd s1))"
  by (simp add: explore_vertex_def for_each_move_fold deref_def Let_def)

lemma explore_vertex_run_inv:
  assumes inv: "run_inv n start (g, q)" and cur: "cur < length (vtxList g)"
  shows "run_inv n start (explore_vertex cur (g, q))"
    and "same_fields g (fst (explore_vertex cur (g, q)))"
    and "numPegs (fst (explore_vertex cur (g, q))) = numPegs g"
proof -
  let ?cs = "state (vtxList g ! cur)"
  let ?f = "\<lambda>m. visit cur ?cs (fst m) (snd m)"
  let ?ms = "move_list (numPegs g) ?cs"
  let ?P = "\<lambda>s. run_inv n start s \<and> same_fields g (fst s) \<and> numPegs (fst s) = numPegs g"
  have P: "?P (fold ?f ?ms (g, q))"
  proof (rule fold_invariant)
    show "?P (g, q)" using inv by (simp add: same_fields_refl)
  next
    fix m s assume m: "m \<in> set ?ms" and Ps: "?P s"
    obtain g1 q1 where s: "s = (g1, q1)" by (cases s)
    have sf: "same_fields g g1" and np: "numPegs g1 = numPegs g" and ri: "run_inv n start (g1, q1)"
      using Ps s by simp_all
    have c1: "cur < length (vtxList g1)" and st: "state (vtxList g1 ! cur) = ?cs"
      using sf cur by (auto simp: same_fields_def)
    have legal: "legal_move (numPegs g1) ?cs (fst m) (snd m)"
      using m np by (auto simp: set_move_list)
    show "?P (?f m s)"
      unfolding s
      using visit_run_inv[OF ri c1 st legal] sf np
      by (auto intro: same_fields_trans)
  qed
  obtain g1 q1 where s1: "fold ?f ?ms (g, q) = (g1, q1)" by (cases "fold ?f ?ms (g, q)")
  have ev: "explore_vertex cur (g, q) =
       (modify cur (\<lambda>v. v\<lparr>color := kVertexColor_Black\<rparr>) g1, q1)"
    by (simp add: explore_vertex_fold s1)
  show "run_inv n start (explore_vertex cur (g, q))"
    unfolding ev using P s1 by (intro blacken_run_inv) simp
  show "same_fields g (fst (explore_vertex cur (g, q)))"
    unfolding ev using P s1 blacken_same_fields[of g1 cur]
    by (auto intro: same_fields_trans)
  show "numPegs (fst (explore_vertex cur (g, q))) = numPegs g"
    unfolding ev using P s1 by (simp add: modify_def)
qed

text \<open>The loop: whatever it returns, the invariant holds of the graph it leaves.\<close>

lemma bfs_loop_run_inv:
  assumes ret: "bfs_loop goal s = Some r" and inv: "run_inv n start s"
  shows "run_inv n start (snd r, []) \<and> same_fields (fst s) (snd r) \<and>
         numPegs (snd r) = numPegs (fst s) \<and>
         (\<forall>D. fst r = Inr D \<longrightarrow>
            (\<exists>c<length (vtxList (snd r)). std_equal (state (vtxList (snd r) ! c)) goal \<and>
                 distance (vtxList (snd r) ! c) = D))"
proof -
  let ?Q = "\<lambda>goal s r. run_inv n start (snd r, []) \<and> same_fields (fst s) (snd r) \<and>
         numPegs (snd r) = numPegs (fst s) \<and>
         (\<forall>D. fst r = Inr D \<longrightarrow>
            (\<exists>c<length (vtxList (snd r)). std_equal (state (vtxList (snd r) ! c)) goal \<and>
                 distance (vtxList (snd r) ! c) = D))"
  have "run_inv n start s \<longrightarrow> ?Q goal s r"
  proof (rule bfs_loop.raw_induct[where P = "\<lambda>goal s r. run_inv n start s \<longrightarrow> ?Q goal s r", OF _ ret])
    fix loop :: "int list \<Rightarrow> Graph \<times> nat list \<Rightarrow> ((error + int) \<times> Graph) option"
    fix goal s r
    assume IH: "\<And>e b y. loop e b = Some y \<Longrightarrow> run_inv n start b \<longrightarrow> ?Q e b y"
      and body: "(case snd s of [] \<Rightarrow> Some (Inl NoReturnValue, fst s)
         | curVtx # rest \<Rightarrow>
          let s1 = explore_vertex curVtx (fst s, rest)
          in if std_equal (state (deref (fst s1) curVtx)) goal
             then Some (Inr (distance (deref (fst s1) curVtx)), fst s1)
             else loop goal s1) = Some r"
    show "run_inv n start s \<longrightarrow> ?Q goal s r"
    proof
      assume inv: "run_inv n start s"
      obtain g q where s: "s = (g, q)" by (cases s)
      show "?Q goal s r"
      proof (cases q)
        case Nil
        then show ?thesis using body inv s by (auto simp: same_fields_refl)
      next
        case (Cons cur rest)
        have cur: "cur < length (vtxList g)" using inv s Cons by (simp add: run_inv_def)
        have ri: "run_inv n start (g, rest)" using inv s Cons by (simp add: run_inv_def)
        let ?s1 = "explore_vertex cur (g, rest)"
        note ev = explore_vertex_run_inv[OF ri cur]
        have c1: "cur < length (vtxList (fst ?s1))"
          using ev(2) cur by (auto simp: same_fields_def)
        show ?thesis
        proof (cases "std_equal (state (deref (fst ?s1) cur)) goal")
          case True
          then have r: "r = (Inr (distance (deref (fst ?s1) cur)), fst ?s1)"
            using body s Cons by (simp add: Let_def)
          have "run_inv n start (fst ?s1, [])"
            using ev(1) by (simp add: run_inv_def)
          then show ?thesis
            using r ev(2,3) True c1 s by (auto simp: deref_def)
        next
          case False
          then have "loop goal ?s1 = Some r"
            using body s Cons by (simp add: Let_def)
          from IH[OF this] ev(1) show ?thesis
            using ev(2,3) s by (auto intro: same_fields_trans)
        qed
      qed
    qed
  qed
  then show ?thesis using inv by simp
qed

section \<open>The predecessor chain\<close>

lemma BuildAndExplore_seeded:
  "BuildAndExplore g startState endState = bfs_loop endState (seeded g startState, [0])"
  by (simp add: BuildAndExplore_def paint_grey_def GetVertex_def Cleanup_def newVtx_def
        modify_def deref_def seeded_def)

lemma run_inv_seeded: "run_inv (length start) start (seeded g start, [0])"
  by (simp add: run_inv_def wf_graph_def chain_inv_def edges_inv_def seeded_def)

lemma top_disk_None: "top_disk st peg = None \<longleftrightarrow> peg \<notin> set st"
  by (induction st) auto

lemma top_disk_Some:
  "top_disk st peg = Some k \<longleftrightarrow> k < length st \<and> st ! k = peg \<and> (\<forall>i<k. st ! i \<noteq> peg)"
proof (induction st arbitrary: k)
  case Nil
  then show ?case by simp
next
  case (Cons x xs)
  show ?case
  proof (cases "x = peg")
    case True
    then show ?thesis by (cases k) auto
  next
    case False
    show ?thesis
    proof (cases k)
      case 0
      then show ?thesis using False by auto
    next
      case (Suc j)
      then show ?thesis using False Cons.IH[of j]
        by (auto simp: less_Suc_eq_0_disj All_less_Suc2)
    qed
  qed
qed

lemma apply_move_legal:
  assumes "legal_move pegs st d p"
  shows "apply_move pegs st (st ! d + 1, p + 1) = Some (st[d := p])"
proof -
  have d: "d < length st" "\<forall>i<d. st ! i \<noteq> st ! d" "p \<noteq> st ! d" "\<forall>i<d. st ! i \<noteq> p"
    "0 \<le> p" "p < pegs"
    using assms by (simp_all add: legal_move_def)
  have src: "top_disk st (st ! d) = Some d"
    using d by (simp add: top_disk_Some)
  show ?thesis
  proof (cases "top_disk st p")
    case None
    then show ?thesis using src d by (simp add: apply_move_def)
  next
    case (Some d')
    then have "d' < length st" "st ! d' = p" by (simp_all add: top_disk_Some)
    then have "d < d'" using d by (metis linorder_neqE_nat)
    then show ?thesis using src Some d by (simp add: apply_move_def)
  qed
qed

lemma replay_append:
  "replay pegs st (ms @ ms') =
     (case replay pegs st ms of None \<Rightarrow> None | Some st' \<Rightarrow> replay pegs st' ms')"
  by (induction ms arbitrary: st) (auto split: option.splits)

text \<open>Walking back from a vertex as many times as its distance says.\<close>

lemma collect_chain:
  assumes ch: "chain_inv pegs start g"
  shows "c < length (vtxList g) \<Longrightarrow> distance (vtxList g ! c) = int k \<Longrightarrow>
         \<exists>path. collect k g (Some c) fl = Inr (path @ fl, Some 0) \<and> length path = k \<and>
                replay pegs start (map (\<lambda>p. lastMove (deref g p)) path) =
                  Some (state (vtxList g ! c))"
proof (induction k arbitrary: c fl)
  case 0
  have "c = 0"
  proof (rule ccontr)
    assume "c \<noteq> 0"
    then obtain u where "u < length (vtxList g)" "distance (vtxList g ! c) = distance (vtxList g ! u) + 1"
      using ch 0(1) unfolding chain_inv_def by (metis neq0_conv)
    moreover have "0 \<le> distance (vtxList g ! u)"
      using ch \<open>u < length (vtxList g)\<close> by (simp add: chain_inv_def)
    ultimately show False using 0(2) by simp
  qed
  then show ?case using ch by (simp add: chain_inv_def)
next
  case (Suc k)
  have "c \<noteq> 0"
  proof
    assume "c = 0"
    then show False using Suc.prems(2) ch by (simp add: chain_inv_def)
  qed
  then obtain u d p where u: "predecessor (vtxList g ! c) = Some u" "u < length (vtxList g)"
      "distance (vtxList g ! c) = distance (vtxList g ! u) + 1"
      "legal_move pegs (state (vtxList g ! u)) d p"
      "state (vtxList g ! c) = (state (vtxList g ! u))[d := p]"
      "lastMove (vtxList g ! c) = (state (vtxList g ! u) ! d + 1, p + 1)"
    using ch Suc.prems(1) unfolding chain_inv_def by (metis neq0_conv)
  have du: "distance (vtxList g ! u) = int k" using u(3) Suc.prems(2) by simp
  from Suc.IH[OF u(2) du, of "c # fl"] obtain path where
    path: "collect k g (Some u) (c # fl) = Inr (path @ c # fl, Some 0)" "length path = k"
      "replay pegs start (map (\<lambda>p. lastMove (deref g p)) path) = Some (state (vtxList g ! u))"
    by blast
  have "collect (Suc k) g (Some c) fl = Inr ((path @ [c]) @ fl, Some 0)"
    using path(1) u(1) by (simp add: deref_def)
  moreover have "length (path @ [c]) = Suc k" using path(2) by simp
  moreover have "replay pegs start (map (\<lambda>p. lastMove (deref g p)) (path @ [c])) =
       Some (state (vtxList g ! c))"
    using path(3) u(5,6) apply_move_legal[OF u(4)]
    by (simp add: replay_append deref_def)
  ultimately show ?case by blast
qed

section \<open>The reconstructed path\<close>

lemma one_disk_run:
  "BuildAndExplore (Graph_new 1 3) [0] [2] = Some (Inr 1, one_disk_graph)"
  by code_simp

lemma BuildAndExplore_final:
  assumes "BuildAndExplore g start goal = Some (r, g')"
  shows "run_inv (length start) start (g', [])" and "numPegs g' = numPegs g"
    and "\<forall>D. r = Inr D \<longrightarrow>
            (\<exists>c<length (vtxList g'). std_equal (state (vtxList g' ! c)) goal \<and>
                 distance (vtxList g' ! c) = D)"
  using bfs_loop_run_inv[OF assms[unfolded BuildAndExplore_seeded] run_inv_seeded]
  by (simp_all add: seeded_def)

lemma GetVertex_found:
  assumes wf: "wf_graph n g" and c: "c < length (vtxList g)" and st: "state (vtxList g ! c) = st"
  shows "GetVertex g st = (c, g)"
proof -
  have lens: "\<forall>v\<in>set (vtxList g). length (state v) = length st"
    using wf c st by (auto simp: wf_graph_def)
  have "st \<in> state ` set (vtxList g)" using c st by (auto simp: in_states_nth)
  then obtain p where p: "find_vertex (vtxList g) st = Some p"
    using find_vertex_None[OF lens] by (cases "find_vertex (vtxList g) st") auto
  then have "p < length (vtxList g)" "state (vtxList g ! p) = st"
    using find_vertex_Some[OF lens] by auto
  then have "p = c" using wf c st by (simp add: wf_graph_nth)
  then show ?thesis using p by (simp add: GetVertex_def)
qed

text \<open>The goal vertex of a search that returned, and the walk back from it.\<close>

lemma goal_vertex_chain:
  assumes run: "BuildAndExplore g start goal = Some (Inr D, g')"
    and len: "length goal = length start"
  shows "\<exists>vtx path. vtx < length (vtxList g') \<and> GetVertex g' goal = (vtx, g') \<and>
           state (vtxList g' ! vtx) = goal \<and> distance (vtxList g' ! vtx) = D \<and> 0 \<le> D \<and>
           collect (nat D) g' (Some vtx) [] = Inr (path, Some 0) \<and> length path = nat D \<and>
           replay (numPegs g) start (map (\<lambda>p. lastMove (deref g' p)) path) = Some goal \<and>
           state (vtxList g' ! 0) = start \<and> predecessor (vtxList g' ! 0) = None"
proof -
  note fin = BuildAndExplore_final[OF run]
  have wf: "wf_graph (length start) g'" and ch: "chain_inv (numPegs g) start g'"
    using fin(1,2) by (simp_all add: run_inv_def)
  obtain c where c: "c < length (vtxList g')" "std_equal (state (vtxList g' ! c)) goal"
      "distance (vtxList g' ! c) = D"
    using fin(3) by blast
  have "length (state (vtxList g' ! c)) = length goal"
    using wf c(1) len by (simp add: wf_graph_nth)
  then have st: "state (vtxList g' ! c) = goal"
    using c(2) by (simp add: std_equal_same_length)
  have D0: "0 \<le> D" using ch c(1,3) by (auto simp: chain_inv_def)
  then have dk: "distance (vtxList g' ! c) = int (nat D)" using c(3) by simp
  from collect_chain[OF ch c(1) dk, of "[]"] obtain path where
    path: "collect (nat D) g' (Some c) [] = Inr (path, Some 0)" "length path = nat D"
      "replay (numPegs g) start (map (\<lambda>p. lastMove (deref g' p)) path) =
         Some (state (vtxList g' ! c))"
    by auto
  have "state (vtxList g' ! 0) = start \<and> predecessor (vtxList g' ! 0) = None"
    using ch by (simp add: chain_inv_def)
  then show ?thesis
    using c(1,3) GetVertex_found[OF wf c(1) st] st D0 path by auto
qed

text \<open>
  Claim C4. When the search returns \<open>D\<close> for a start and a goal of the same length, the
  driver finds the goal vertex, its loop follows the predecessor pointer \<open>D\<close> times without
  meeting the null pointer and ends at the start vertex (the one with the start state and no
  predecessor), and it collects and prints exactly \<open>D\<close> moves.
\<close>

theorem predecessor_chain_length:
  assumes "BuildAndExplore g start goal = Some (Inr D, g')" and "length goal = length start"
  shows "\<exists>vtx path sv ms.
           GetVertex g' goal = (vtx, g') \<and> state (deref g' vtx) = goal \<and>
           collect (nat D) g' (Some vtx) [] = Inr (path, Some sv) \<and>
           state (deref g' sv) = start \<and> predecessor (deref g' sv) = None \<and>
           int (length path) = D \<and>
           reconstruct g' goal D = Inr ms \<and> int (length ms) = D"
proof -
  from goal_vertex_chain[OF assms] obtain vtx path where
    "GetVertex g' goal = (vtx, g')" "state (vtxList g' ! vtx) = goal" "0 \<le> D"
    "collect (nat D) g' (Some vtx) [] = Inr (path, Some 0)" "length path = nat D"
    "state (vtxList g' ! 0) = start" "predecessor (vtxList g' ! 0) = None"
    by blast
  then show ?thesis
    by (intro exI[of _ vtx] exI[of _ path] exI[of _ 0]) (simp add: deref_def reconstruct_def)
qed

theorem predecessor_chain_length_witness:
  "BuildAndExplore (Graph_new 1 3) [0] [2] = Some (Inr 1, one_disk_graph) \<and>
   length [2 :: int] = length [0 :: int] \<and>
   (\<exists>vtx path sv ms.
           GetVertex one_disk_graph [2] = (vtx, one_disk_graph) \<and>
           state (deref one_disk_graph vtx) = [2] \<and>
           collect (nat 1) one_disk_graph (Some vtx) [] = Inr (path, Some sv) \<and>
           state (deref one_disk_graph sv) = [0] \<and>
           predecessor (deref one_disk_graph sv) = None \<and>
           int (length path) = 1 \<and>
           reconstruct one_disk_graph [2] 1 = Inr ms \<and> int (length ms) = 1)"
  using predecessor_chain_length[OF one_disk_run] one_disk_run by simp

text \<open>
  Claim C5. When the search returns for a start and a goal of the same length, the moves the
  driver prints pass the replay check from the start state, each one moving the topmost disk
  of its source peg onto a peg whose topmost disk is larger, and the replay ends in the goal
  state.
\<close>

theorem reconstructed_path_is_legal:
  assumes "BuildAndExplore g start goal = Some (Inr D, g')" and "length goal = length start"
  shows "\<exists>ms. reconstruct g' goal D = Inr ms \<and> replay (numPegs g) start ms = Some goal"
proof -
  from goal_vertex_chain[OF assms] obtain vtx path where
    "GetVertex g' goal = (vtx, g')"
    "collect (nat D) g' (Some vtx) [] = Inr (path, Some 0)"
    "replay (numPegs g) start (map (\<lambda>p. lastMove (deref g' p)) path) = Some goal"
    by blast
  then show ?thesis by (simp add: reconstruct_def)
qed

theorem reconstructed_path_is_legal_witness:
  "BuildAndExplore (Graph_new 1 3) [0] [2] = Some (Inr 1, one_disk_graph) \<and>
   length [2 :: int] = length [0 :: int] \<and>
   (\<exists>ms. reconstruct one_disk_graph [2] 1 = Inr ms \<and>
         replay (numPegs (Graph_new 1 3)) [0] ms = Some [2])"
  using reconstructed_path_is_legal[OF one_disk_run] one_disk_run by simp

section \<open>The move graph is connected\<close>

lemma step_append:
  assumes "step pegs xs xs'"
  shows "step pegs (xs @ [a]) (xs' @ [a])"
proof -
  from assms obtain d p where dp: "legal_move pegs xs d p" "xs' = xs[d := p]"
    by (auto simp: step_def)
  then have d: "d < length xs" by (simp add: legal_move_def)
  have "legal_move pegs (xs @ [a]) d p"
    using dp(1) d by (auto simp: legal_move_def nth_append)
  moreover have "xs' @ [a] = (xs @ [a])[d := p]"
    using dp(2) d by (simp add: list_update_append1)
  ultimately show ?thesis by (auto simp: step_def)
qed

lemma steps_append:
  "(step pegs)\<^sup>*\<^sup>* xs xs' \<Longrightarrow> (step pegs)\<^sup>*\<^sup>* (xs @ [a]) (xs' @ [a])"
proof (induction rule: rtranclp_induct)
  case base
  then show ?case by simp
next
  case (step y z)
  then show ?case using step_append[of pegs y z a] by (meson rtranclp.rtrancl_into_rtrancl)
qed

lemma step_largest:
  assumes "\<forall>x\<in>set xs. x = c" "c \<noteq> a" "c \<noteq> b" "a \<noteq> b" "0 \<le> b" "b < pegs"
  shows "step pegs (xs @ [a]) (xs @ [b])"
proof -
  have "legal_move pegs (xs @ [a]) (length xs) b"
    using assms by (auto simp: legal_move_def nth_append)
  moreover have "xs @ [b] = (xs @ [a])[length xs := b]" by simp
  ultimately show ?thesis unfolding step_def by blast
qed

text \<open>With three pegs or more every state can be turned into every other.\<close>

lemma hanoi_connected:
  assumes pegs: "3 \<le> pegs"
  shows "length s = n \<Longrightarrow> length t = n \<Longrightarrow> on_pegs pegs s \<Longrightarrow> on_pegs pegs t \<Longrightarrow>
         (step pegs)\<^sup>*\<^sup>* s t"
proof (induction n arbitrary: s t)
  case 0
  then show ?case by simp
next
  case (Suc n)
  obtain xs a where s: "s = xs @ [a]" using Suc.prems(1) by (cases s rule: rev_cases) auto
  obtain ys b where t: "t = ys @ [b]" using Suc.prems(2) by (cases t rule: rev_cases) auto
  have lx: "length xs = n" and ly: "length ys = n" using Suc.prems s t by auto
  have px: "on_pegs pegs xs" and py: "on_pegs pegs ys"
    and a: "0 \<le> a" "a < pegs" and b: "0 \<le> b" "b < pegs"
    using Suc.prems s t by (auto simp: on_pegs_def)
  show ?case
  proof (cases "a = b")
    case True
    have "(step pegs)\<^sup>*\<^sup>* xs ys" by (rule Suc.IH[OF lx ly px py])
    then show ?thesis unfolding s t True by (rule steps_append)
  next
    case False
    obtain c where c: "0 \<le> c" "c < pegs" "c \<noteq> a" "c \<noteq> b"
    proof -
      have "\<exists>c::int. 0 \<le> c \<and> c < pegs \<and> c \<noteq> a \<and> c \<noteq> b"
        using pegs by presburger
      then show ?thesis using that by blast
    qed
    let ?zs = "replicate n c"
    have pz: "on_pegs pegs ?zs" using c by (simp add: on_pegs_def)
    have 1: "(step pegs)\<^sup>*\<^sup>* (xs @ [a]) (?zs @ [a])"
      by (rule steps_append[OF Suc.IH[OF lx _ px pz]]) simp
    have 2: "step pegs (?zs @ [a]) (?zs @ [b])"
      using c False b by (intro step_largest[where c = c]) auto
    have 3: "(step pegs)\<^sup>*\<^sup>* (?zs @ [b]) (ys @ [b])"
      by (rule steps_append[OF Suc.IH[OF _ ly pz py]]) simp
    show ?thesis unfolding s t using 1 2 3 by (meson rtranclp.rtrancl_into_rtrancl rtranclp_trans)
  qed
qed

section \<open>The frontier\<close>

lemma same_colors_closed:
  assumes cl: "closed_inv pegs goal g"
    and le: "length (vtxList g) \<le> length (vtxList g')"
    and same: "\<forall>i<length (vtxList g). state (vtxList g' ! i) = state (vtxList g ! i) \<and>
                 color (vtxList g' ! i) = color (vtxList g ! i)"
    and fresh: "\<forall>i<length (vtxList g'). length (vtxList g) \<le> i \<longrightarrow>
                 color (vtxList g' ! i) \<noteq> kVertexColor_Black"
  shows "closed_inv pegs goal g'"
  unfolding closed_inv_def
proof (intro allI impI)
  fix i assume i: "i < length (vtxList g')" and bl: "color (vtxList g' ! i) = kVertexColor_Black"
  have il: "i < length (vtxList g)" using fresh i bl by (meson not_le)
  then have bl0: "color (vtxList g ! i) = kVertexColor_Black" using same bl by simp
  have sub: "state ` set (vtxList g) \<subseteq> state ` set (vtxList g')"
  proof
    fix st assume "st \<in> state ` set (vtxList g)"
    then obtain k where "k < length (vtxList g)" "state (vtxList g ! k) = st"
      by (auto simp: in_states_nth)
    then have "k < length (vtxList g') \<and> state (vtxList g' ! k) = st" using le same by auto
    then show "st \<in> state ` set (vtxList g')" unfolding in_states_nth by blast
  qed
  show "\<not> std_equal (state (vtxList g' ! i)) goal \<and>
        (\<forall>s'. step pegs (state (vtxList g' ! i)) s' \<longrightarrow> s' \<in> state ` set (vtxList g'))"
    using cl il bl0 same sub unfolding closed_inv_def by auto
qed

lemma visit_frontier:
  assumes wf: "wf_graph n g" and cur: "cur < length (vtxList g)"
    and cs: "state (vtxList g ! cur) = cs"
    and v: "visit cur cs d p (g, q) = (g', q')"
    and legal: "legal_move pegs cs d p"
    and gr: "grey_inv g (cur # q)" and cl: "closed_inv pegs goal g" and bd: "bounded_inv pegs g"
  shows "grey_inv g' (cur # q')" and "closed_inv pegs goal g'" and "bounded_inv pegs g'"
proof -
  let ?vl = "vtxList g" and ?vl' = "vtxList g'"
  have len: "length cs = n" using wf cur cs by (auto simp: wf_graph_nth)
  have pcs: "on_pegs pegs cs" using bd cur cs by (auto simp: bounded_inv_def)
  have pns: "on_pegs pegs (cs[d := p])"
    unfolding on_pegs_def
  proof
    fix x assume "x \<in> set (cs[d := p])"
    then have "x = p \<or> x \<in> set cs" using set_update_subset_insert[of cs d p] by auto
    then show "0 \<le> x \<and> x < pegs" using pcs legal by (auto simp: on_pegs_def legal_move_def)
  qed
  from wf cur len v
  have "grey_inv g' (cur # q') \<and> closed_inv pegs goal g' \<and> bounded_inv pegs g'"
  proof (cases rule: visit_elim)
    case (old j)
    have same: "\<forall>i<length ?vl. state (?vl' ! i) = state (?vl ! i) \<and>
                 color (?vl' ! i) = color (?vl ! i)"
      using old(5) by simp
    have "grey_inv g' (cur # q')"
      using gr same old(3,4) unfolding grey_inv_def by simp
    moreover have "closed_inv pegs goal g'"
      using old(4) same by (intro same_colors_closed[OF cl]) simp_all
    moreover have "bounded_inv pegs g'"
      using bd same old(4) by (simp add: bounded_inv_def)
    ultimately show ?thesis by simp
  next
    case new
    let ?m = "length ?vl"
    have same: "\<forall>i<?m. state (?vl' ! i) = state (?vl ! i) \<and> color (?vl' ! i) = color (?vl ! i)"
      using new(5) by simp
    have newc: "color (?vl' ! ?m) = kVertexColor_Grey" "state (?vl' ! ?m) = cs[d := p]"
      using new(4) by simp_all
    have g1: "distinct (cur # q')"
      using gr new(1) unfolding grey_inv_def by auto
    have g2: "\<forall>c\<in>set (cur # q'). c < length ?vl'"
      using gr new(1,2) unfolding grey_inv_def by (auto simp: less_Suc_eq)
    have g3: "\<forall>i<length ?vl'. i \<in> set (cur # q') \<longleftrightarrow> color (?vl' ! i) = kVertexColor_Grey"
    proof (intro allI impI)
      fix i assume "i < length ?vl'"
      then consider "i < ?m" | "i = ?m" using new(2) by (auto simp: less_Suc_eq)
      then show "i \<in> set (cur # q') \<longleftrightarrow> color (?vl' ! i) = kVertexColor_Grey"
      proof cases
        case 1
        then show ?thesis using gr same new(1) unfolding grey_inv_def by auto
      next
        case 2
        then show ?thesis using newc new(1) by simp
      qed
    qed
    have "grey_inv g' (cur # q')" unfolding grey_inv_def using g1 g2 g3 by blast
    moreover have "closed_inv pegs goal g'"
    proof (rule same_colors_closed[OF cl _ same])
      show "length ?vl \<le> length ?vl'" using new(2) by simp
      show "\<forall>i<length ?vl'. ?m \<le> i \<longrightarrow> color (?vl' ! i) \<noteq> kVertexColor_Black"
      proof (intro allI impI)
        fix i assume "i < length ?vl'" "?m \<le> i"
        then have "i = ?m" using new(2) by simp
        then show "color (?vl' ! i) \<noteq> kVertexColor_Black" using newc by simp
      qed
    qed
    moreover have "bounded_inv pegs g'"
      unfolding bounded_inv_def
    proof (intro allI impI)
      fix i assume "i < length ?vl'"
      then consider "i < ?m" | "i = ?m" using new(2) by (auto simp: less_Suc_eq)
      then show "on_pegs pegs (state (?vl' ! i))"
      proof cases
        case 1
        then show ?thesis using bd same by (simp add: bounded_inv_def)
      next
        case 2
        then show ?thesis using newc pns by simp
      qed
    qed
    ultimately show ?thesis by simp
  qed
  then show "grey_inv g' (cur # q')" and "closed_inv pegs goal g'" and "bounded_inv pegs g'"
    by simp_all
qed

lemma same_fields_states:
  assumes "same_fields g g'" "st \<in> state ` set (vtxList g)"
  shows "st \<in> state ` set (vtxList g')"
proof -
  from assms(2) obtain k where "k < length (vtxList g)" "state (vtxList g ! k) = st"
    by (auto simp: in_states_nth)
  then have "k < length (vtxList g') \<and> state (vtxList g' ! k) = st"
    using assms(1) by (auto simp: same_fields_def)
  then show ?thesis unfolding in_states_nth by blast
qed

lemma blacken_states:
  "map state (vtxList (modify c (\<lambda>v. v\<lparr>color := kVertexColor_Black\<rparr>) g)) =
   map state (vtxList g)"
  by (cases "c < length (vtxList g)")
     (simp_all add: blacken_nth map_update list_update_same_conv list_update_beyond)

lemma blacken_frontier:
  assumes cur: "cur < length (vtxList g)"
    and gr: "grey_inv g (cur # q)" and bd: "bounded_inv pegs g"
  shows "grey_inv (modify cur (\<lambda>v. v\<lparr>color := kVertexColor_Black\<rparr>) g) q"
    and "bounded_inv pegs (modify cur (\<lambda>v. v\<lparr>color := kVertexColor_Black\<rparr>) g)"
proof -
  let ?g' = "modify cur (\<lambda>v. v\<lparr>color := kVertexColor_Black\<rparr>) g"
  have vl: "vtxList ?g' = (vtxList g)[cur := (vtxList g ! cur)\<lparr>color := kVertexColor_Black\<rparr>]"
    by (rule blacken_nth)
  have col: "\<forall>i<length (vtxList g). color (vtxList ?g' ! i) =
      (if i = cur then kVertexColor_Black else color (vtxList g ! i))"
    and st: "\<forall>i<length (vtxList g). state (vtxList ?g' ! i) = state (vtxList g ! i)"
    by (simp_all add: vl nth_blacken)
  have len: "length (vtxList ?g') = length (vtxList g)" by (simp add: vl)
  have "cur \<notin> set q" "distinct q" using gr by (simp_all add: grey_inv_def)
  then show "grey_inv ?g' q"
    using gr col unfolding grey_inv_def len by auto
  show "bounded_inv pegs ?g'"
    using bd st unfolding bounded_inv_def len by simp
qed

lemma blacken_closed:
  assumes cur: "cur < length (vtxList g)" and cl: "closed_inv pegs goal g"
    and ng: "\<not> std_equal (state (vtxList g ! cur)) goal"
    and nb: "\<forall>s'. step pegs (state (vtxList g ! cur)) s' \<longrightarrow> s' \<in> state ` set (vtxList g)"
  shows "closed_inv pegs goal (modify cur (\<lambda>v. v\<lparr>color := kVertexColor_Black\<rparr>) g)"
proof -
  let ?g' = "modify cur (\<lambda>v. v\<lparr>color := kVertexColor_Black\<rparr>) g"
  have vl: "vtxList ?g' = (vtxList g)[cur := (vtxList g ! cur)\<lparr>color := kVertexColor_Black\<rparr>]"
    by (rule blacken_nth)
  have col: "\<forall>i<length (vtxList g). color (vtxList ?g' ! i) =
      (if i = cur then kVertexColor_Black else color (vtxList g ! i))"
    and st: "\<forall>i<length (vtxList g). state (vtxList ?g' ! i) = state (vtxList g ! i)"
    by (simp_all add: vl nth_blacken)
  have len: "length (vtxList ?g') = length (vtxList g)" by (simp add: vl)
  have sts: "state ` set (vtxList ?g') = state ` set (vtxList g)"
    using arg_cong[OF blacken_states[of cur g], of set] by simp
  show ?thesis
    unfolding closed_inv_def sts len
  proof (intro allI impI)
    fix i assume i: "i < length (vtxList g)" and "color (vtxList ?g' ! i) = kVertexColor_Black"
    then have "i = cur \<or> color (vtxList g ! i) = kVertexColor_Black"
      using col by (auto split: if_splits)
    then show "\<not> std_equal (state (vtxList ?g' ! i)) goal \<and>
        (\<forall>s'. step pegs (state (vtxList ?g' ! i)) s' \<longrightarrow> s' \<in> state ` set (vtxList g))"
      using ng nb cl i st unfolding closed_inv_def by auto
  qed
qed

text \<open>One pass of the loop body and the frontier.\<close>

lemma explore_vertex_frontier:
  assumes inv: "run_inv n start (g, q)" and cur: "cur < length (vtxList g)"
    and np: "numPegs g = pegs"
    and gr: "grey_inv g (cur # q)" and cl: "closed_inv pegs goal g" and bd: "bounded_inv pegs g"
  shows "grey_inv (fst (explore_vertex cur (g, q))) (snd (explore_vertex cur (g, q)))"
    and "bounded_inv pegs (fst (explore_vertex cur (g, q)))"
    and "\<not> std_equal (state (vtxList g ! cur)) goal \<Longrightarrow>
         closed_inv pegs goal (fst (explore_vertex cur (g, q)))"
    and "length (vtxList (fst (explore_vertex cur (g, q)))) + length q =
         length (vtxList g) + length (snd (explore_vertex cur (g, q)))"
proof -
  let ?cs = "state (vtxList g ! cur)"
  let ?f = "\<lambda>m. visit cur ?cs (fst m) (snd m)"
  let ?ms = "move_list (numPegs g) ?cs"
  let ?P = "\<lambda>s. run_inv n start s \<and> same_fields g (fst s) \<and> numPegs (fst s) = pegs \<and>
      grey_inv (fst s) (cur # snd s) \<and> closed_inv pegs goal (fst s) \<and> bounded_inv pegs (fst s) \<and>
      length (vtxList (fst s)) + length q = length (vtxList g) + length (snd s)"
  let ?Q = "\<lambda>m s. ?cs[fst m := snd m] \<in> state ` set (vtxList (fst s))"
  have PQ: "?P (fold ?f ?ms (g, q)) \<and> (\<forall>m\<in>set ?ms. ?Q m (fold ?f ?ms (g, q)))"
  proof (rule fold_invariant_each)
    show "?P (g, q)" using inv np gr cl bd by (simp add: same_fields_refl)
  next
    fix m s assume m: "m \<in> set ?ms" and Ps: "?P s"
    obtain g1 q1 where s: "s = (g1, q1)" by (cases s)
    obtain g2 q2 where v: "visit cur ?cs (fst m) (snd m) (g1, q1) = (g2, q2)"
      by (cases "visit cur ?cs (fst m) (snd m) (g1, q1)")
    have sf: "same_fields g g1" and np1: "numPegs g1 = pegs" and ri: "run_inv n start (g1, q1)"
      and fr: "grey_inv g1 (cur # q1)" "closed_inv pegs goal g1" "bounded_inv pegs g1"
      and cnt: "length (vtxList g1) + length q = length (vtxList g) + length q1"
      using Ps s by simp_all
    have wf1: "wf_graph n g1" using ri by (simp add: run_inv_def)
    have c1: "cur < length (vtxList g1)" and st: "state (vtxList g1 ! cur) = ?cs"
      using sf cur by (auto simp: same_fields_def)
    have len: "length ?cs = n" using wf1 c1 st by (auto simp: wf_graph_nth)
    have legal: "legal_move pegs ?cs (fst m) (snd m)"
      using m np by (auto simp: set_move_list)
    have legal1: "legal_move (numPegs g1) ?cs (fst m) (snd m)"
      using legal np1 by simp
    note r = visit_run_inv[OF ri c1 st legal1, unfolded v]
    note f = visit_frontier[OF wf1 c1 st v legal fr]
    note fm = visit_frame[OF wf1 c1 len v]
    have "?P (g2, q2)"
      using r f fm(4) sf np1 cnt by (auto intro: same_fields_trans)
    moreover have "?Q m (g2, q2)" using fm(6) by simp
    ultimately show "?P (?f m s) \<and> ?Q m (?f m s)" by (simp add: s v)
  next
    fix x y s assume y: "y \<in> set ?ms" and Ps: "?P s" and Qx: "?Q x s"
    obtain g1 q1 where s: "s = (g1, q1)" by (cases s)
    have sf: "same_fields g g1" and np1: "numPegs g1 = pegs" and ri: "run_inv n start (g1, q1)"
      using Ps s by simp_all
    have c1: "cur < length (vtxList g1)" and st: "state (vtxList g1 ! cur) = ?cs"
      using sf cur by (auto simp: same_fields_def)
    have legal1: "legal_move (numPegs g1) ?cs (fst y) (snd y)"
      using y np np1 by (auto simp: set_move_list)
    have "same_fields g1 (fst (?f y s))"
      using visit_run_inv(2)[OF ri c1 st legal1] by (simp add: s)
    then show "?Q x (?f y s)"
      using Qx s by (auto intro: same_fields_states)
  qed
  obtain g1 q1 where s1: "fold ?f ?ms (g, q) = (g1, q1)" by (cases "fold ?f ?ms (g, q)")
  have ev: "explore_vertex cur (g, q) =
       (modify cur (\<lambda>v. v\<lparr>color := kVertexColor_Black\<rparr>) g1, q1)"
    by (simp add: explore_vertex_fold s1)
  have sf: "same_fields g g1" and gr1: "grey_inv g1 (cur # q1)" and cl1: "closed_inv pegs goal g1"
    and bd1: "bounded_inv pegs g1"
    and cnt: "length (vtxList g1) + length q = length (vtxList g) + length q1"
    and Q: "\<forall>m\<in>set ?ms. ?cs[fst m := snd m] \<in> state ` set (vtxList g1)"
    using PQ s1 by simp_all
  have c1: "cur < length (vtxList g1)" and st: "state (vtxList g1 ! cur) = ?cs"
    using sf cur by (auto simp: same_fields_def)
  show "grey_inv (fst (explore_vertex cur (g, q))) (snd (explore_vertex cur (g, q)))"
    unfolding ev using blacken_frontier(1)[OF c1 gr1 bd1] by simp
  show "bounded_inv pegs (fst (explore_vertex cur (g, q)))"
    unfolding ev using blacken_frontier(2)[OF c1 gr1 bd1] by simp
  show "length (vtxList (fst (explore_vertex cur (g, q)))) + length q =
         length (vtxList g) + length (snd (explore_vertex cur (g, q)))"
    unfolding ev using cnt by (simp add: blacken_nth)
  show "closed_inv pegs goal (fst (explore_vertex cur (g, q)))"
    if ng: "\<not> std_equal (state (vtxList g ! cur)) goal"
  proof -
    have nb: "\<forall>s'. step pegs (state (vtxList g1 ! cur)) s' \<longrightarrow> s' \<in> state ` set (vtxList g1)"
      unfolding st
    proof (intro allI impI)
      fix s' assume "step pegs ?cs s'"
      then obtain d p where "legal_move pegs ?cs d p" "s' = ?cs[d := p]"
        by (auto simp: step_def)
      then have "(d, p) \<in> set ?ms" "s' = ?cs[fst (d, p) := snd (d, p)]"
        using np by (simp_all add: set_move_list)
      then show "s' \<in> state ` set (vtxList g1)" using Q by blast
    qed
    show ?thesis
      unfolding ev using blacken_closed[OF c1 cl1 _ nb] ng st by simp
  qed
qed

section \<open>Termination\<close>

lemma finite_state_space: "finite (state_space pegs n)"
  unfolding state_space_def by (rule finite_lists_length_eq) simp

lemma length_le_state_space:
  assumes wf: "wf_graph n g" and bd: "bounded_inv pegs g"
  shows "length (vtxList g) \<le> card (state_space pegs n)"
proof -
  have "set (map state (vtxList g)) \<subseteq> state_space pegs n"
  proof
    fix st assume "st \<in> set (map state (vtxList g))"
    then obtain i where i: "i < length (vtxList g)" "st = state (vtxList g ! i)"
      by (auto simp: in_set_conv_nth)
    then show "st \<in> state_space pegs n"
      using wf bd by (auto simp: wf_graph_nth bounded_inv_def on_pegs_def state_space_def)
  qed
  then have "card (set (map state (vtxList g))) \<le> card (state_space pegs n)"
    by (rule card_mono[OF finite_state_space])
  moreover have "card (set (map state (vtxList g))) = length (vtxList g)"
    using wf distinct_card[of "map state (vtxList g)"] by (simp add: wf_graph_def)
  ultimately show ?thesis by simp
qed

text \<open>When the queue is empty every state that can be reached is in the graph.\<close>

lemma exhausted_closed:
  assumes inv: "search_inv pegs goal n start (g, [])" and reach: "(step pegs)\<^sup>*\<^sup>* start t"
  shows "\<exists>i<length (vtxList g). state (vtxList g ! i) = t"
  using reach
proof (induction rule: rtranclp_induct)
  case base
  have "chain_inv pegs start g" using inv by (auto simp: search_inv_def run_inv_def)
  then show ?case by (auto simp: chain_inv_def)
next
  case (step y z)
  then obtain i where i: "i < length (vtxList g)" "state (vtxList g ! i) = y" by blast
  have "color (vtxList g ! i) \<noteq> kVertexColor_White"
    using inv i(1) by (simp add: search_inv_def run_inv_def wf_graph_nth)
  moreover have "color (vtxList g ! i) \<noteq> kVertexColor_Grey"
    using inv i(1) by (auto simp: search_inv_def grey_inv_def)
  ultimately have "color (vtxList g ! i) = kVertexColor_Black"
    by (cases "color (vtxList g ! i)") simp_all
  then have "z \<in> state ` set (vtxList g)"
    using inv i step.hyps(2) by (auto simp: search_inv_def closed_inv_def)
  then show ?case by (simp add: in_states_nth)
qed

lemma bfs_loop_returns:
  assumes len: "length goal = n" and reach: "(step pegs)\<^sup>*\<^sup>* start goal"
  shows "search_inv pegs goal n start s \<Longrightarrow> \<exists>D g'. bfs_loop goal s = Some (Inr D, g')"
proof (induction "work_left pegs n s" arbitrary: s rule: less_induct)
  case less
  obtain g q where s: "s = (g, q)" by (cases s)
  note inv = less.prems[unfolded s]
  show ?case
  proof (cases q)
    case Nil
    from exhausted_closed[OF inv[unfolded Nil] reach] obtain i where
      i: "i < length (vtxList g)" "state (vtxList g ! i) = goal" by blast
    have "color (vtxList g ! i) \<noteq> kVertexColor_White"
      using inv i(1) by (simp add: search_inv_def run_inv_def wf_graph_nth)
    moreover have "color (vtxList g ! i) \<noteq> kVertexColor_Grey"
      using inv i(1) Nil by (auto simp: search_inv_def grey_inv_def)
    ultimately have "color (vtxList g ! i) = kVertexColor_Black"
      by (cases "color (vtxList g ! i)") simp_all
    then have "\<not> std_equal (state (vtxList g ! i)) goal"
      using inv i(1) by (auto simp: search_inv_def closed_inv_def)
    then show ?thesis using i(2) by (simp add: std_equal_refl)
  next
    case (Cons cur rest)
    have ri0: "run_inv n start (g, cur # rest)" and np: "numPegs g = pegs"
      and gr: "grey_inv g (cur # rest)" and cl: "closed_inv pegs goal g"
      and bd: "bounded_inv pegs g"
      using inv Cons by (simp_all add: search_inv_def)
    have cur: "cur < length (vtxList g)" using ri0 by (simp add: run_inv_def)
    have ri: "run_inv n start (g, rest)" using ri0 by (simp add: run_inv_def)
    let ?s1 = "explore_vertex cur (g, rest)"
    note ev = explore_vertex_run_inv[OF ri cur]
    note fr = explore_vertex_frontier[OF ri cur np gr cl bd]
    have st: "state (deref (fst ?s1) cur) = state (vtxList g ! cur)"
      using ev(2) cur by (simp add: same_fields_def deref_def)
    show ?thesis
    proof (cases "std_equal (state (deref (fst ?s1) cur)) goal")
      case True
      then show ?thesis
        unfolding s Cons by (subst bfs_loop.simps) (simp add: Let_def)
    next
      case False
      then have ng: "\<not> std_equal (state (vtxList g ! cur)) goal" using st by simp
      have inv1: "search_inv pegs goal n start ?s1"
        using ev(1,3) fr(1,2) fr(3)[OF ng] np by (simp add: search_inv_def)
      have wf1: "wf_graph n (fst ?s1)" using ev(1) by (simp add: run_inv_def)
      have le1: "length (vtxList (fst ?s1)) \<le> card (state_space pegs n)"
        by (rule length_le_state_space[OF wf1 fr(2)])
      have le0: "length (vtxList g) \<le> length (vtxList (fst ?s1))"
        using ev(2) by (simp add: same_fields_def)
      have "work_left pegs n ?s1 < work_left pegs n s"
        using fr(4) le1 le0 unfolding work_left_def s Cons by simp
      from less.hyps[OF this inv1] obtain D g' where "bfs_loop goal ?s1 = Some (Inr D, g')"
        by blast
      then show ?thesis
        unfolding s Cons using False by (subst bfs_loop.simps) (simp add: Let_def)
    qed
  qed
qed

lemma search_inv_seeded:
  assumes "on_pegs (numPegs g) start"
  shows "search_inv (numPegs g) goal (length start) start (seeded g start, [0])"
  unfolding search_inv_def
  using run_inv_seeded[of start g] assms
  by (simp add: seeded_def grey_inv_def closed_inv_def bounded_inv_def)

text \<open>
  Claim C3. On well-formed input with at least three pegs the search comes back, by its
  \<open>return\<close> statement and never by running off the end of the function, and the distance
  it returns is not negative.
\<close>

theorem search_returns_distance:
  assumes "valid_input (numDisks g) (numPegs g) start goal" and "3 \<le> numPegs g"
  shows "\<exists>D g'. BuildAndExplore g start goal = Some (Inr D, g') \<and> 0 \<le> D"
proof -
  have len: "length goal = length start" and ps: "on_pegs (numPegs g) start"
    and pg: "on_pegs (numPegs g) goal"
    using assms(1) by (simp_all add: valid_input_def on_pegs_def)
  have reach: "(step (numPegs g))\<^sup>*\<^sup>* start goal"
    using hanoi_connected[OF assms(2) refl len ps pg] .
  from bfs_loop_returns[OF len reach search_inv_seeded[OF ps]]
  obtain D g' where run: "BuildAndExplore g start goal = Some (Inr D, g')"
    by (auto simp: BuildAndExplore_seeded)
  from goal_vertex_chain[OF run len] have "0 \<le> D" by blast
  then show ?thesis using run by blast
qed

theorem search_returns_distance_witness:
  "valid_input (numDisks (Graph_new 2 3)) (numPegs (Graph_new 2 3)) [0, 0] [2, 2] \<and>
   3 \<le> numPegs (Graph_new 2 3) \<and>
   (\<exists>D g'. BuildAndExplore (Graph_new 2 3) [0, 0] [2, 2] = Some (Inr D, g') \<and> 0 \<le> D)"
proof -
  have v: "valid_input (numDisks (Graph_new 2 3)) (numPegs (Graph_new 2 3)) [0, 0] [2, 2]"
    by (simp add: valid_input_def Graph_new_def)
  have p: "3 \<le> numPegs (Graph_new 2 3)" by (simp add: Graph_new_def)
  show ?thesis using search_returns_distance[OF v p] v p by simp
qed

section \<open>Colours, distances and predecessors over time\<close>




lemma nth_update_any:
  "j < length xs \<Longrightarrow> xs[i := x] ! j = (if i = j then x else xs ! j)"
  by (cases "i < length xs") (auto simp: nth_list_update)

lemma modify_nth:
  "i < length (vtxList g) \<Longrightarrow>
   vtxList (modify p f g) ! i = (if p = i then f (vtxList g ! i) else vtxList g ! i)"
  "length (vtxList (modify p f g)) = length (vtxList g)"
  by (simp_all add: modify_def deref_def nth_update_any)

lemma GetVertex_nth:
  "i < length (vtxList g) \<Longrightarrow> vtxList (snd (GetVertex g st)) ! i = vtxList g ! i"
  "length (vtxList g) \<le> length (vtxList (snd (GetVertex g st)))"
  by (simp_all add: GetVertex_def nth_append split: option.splits)






lemma find_vertex_less: "find_vertex vl st = Some p \<Longrightarrow> p < length vl"
  by (induction vl arbitrary: p) (auto split: if_splits)

lemma GetVertex_valid: "fst (GetVertex g st) < length (vtxList (snd (GetVertex g st)))"
  by (auto simp: GetVertex_def find_vertex_less split: option.splits)













section \<open>The driver on equal states and on malformed input\<close>

lemma search_same_state:
  "\<exists>g'. BuildAndExplore g A A = Some (Inr 0, g')"
proof -
  let ?s1 = "explore_vertex 0 (seeded g A, [])"
  have ri: "run_inv (length A) A (seeded g A, [])"
    using run_inv_seeded[of A g] by (simp add: run_inv_def)
  have c: "0 < length (vtxList (seeded g A))" by (simp add: seeded_def)
  have "same_fields (seeded g A) (fst ?s1)" by (rule explore_vertex_run_inv(2)[OF ri c])
  then have "state (deref (fst ?s1) 0) = A" "distance (deref (fst ?s1) 0) = 0"
    using c by (simp_all add: same_fields_def deref_def seeded_def)
  then have "bfs_loop A (seeded g A, [0]) = Some (Inr 0, fst ?s1)"
    by (subst bfs_loop.simps) (simp add: Let_def std_equal_refl)
  then show ?thesis by (simp add: BuildAndExplore_seeded)
qed

lemma reconstruct_zero: "reconstruct g st 0 = Inr []"
  by (simp add: reconstruct_def split: prod.splits)

text \<open>
  Claim C8. When the start state is the goal state, whatever it is, the search returns 0, the
  driver collects no vertex and prints no move.
\<close>

theorem same_state_distance_zero:
  "(\<exists>g'. BuildAndExplore g A A = Some (Inr 0, g') \<and> reconstruct g' A 0 = Inr []) \<and>
   run_search nd np A A = Some (Inr (0, []))"
proof -
  obtain g1 where "BuildAndExplore (Graph_new nd np) A A = Some (Inr 0, g1)"
    using search_same_state by blast
  then have "run_search nd np A A = Some (Inr (0, []))"
    by (simp add: run_search_def reconstruct_zero)
  then show ?thesis using search_same_state[of g A] reconstruct_zero by auto
qed

theorem same_state_distance_zero_witness:
  "run_search 2 3 [1, 0] [1, 0] = Some (Inr (0, []))"
  using same_state_distance_zero[of "Graph_new 2 3" "[1, 0]" 2 3] by simp

text \<open>The reading loop on input that holds the entries of a state, each raised by one.\<close>

lemma read_state_map:
  "read_state (length st) (map (\<lambda>x. x + 1) st @ rest) = Some (st, rest)"
  by (induction st) simp_all

text \<open>
  Claim C9, as amended. The driver checks nothing between reading and searching: whatever
  the counts and the entries are, the answer of \<open>main\<close> is the answer of the search on the
  two states it has read, and an input whose start and goal agree is answered with 0 moves,
  be the disk count zero or negative (both states are then empty), the peg count zero or
  negative, or an entry no peg at all.
\<close>

theorem malformed_input_is_searched:
  assumes "length st = nat nd" and "length en = nat nd"
  shows "main_prog (nd # np # map (\<lambda>x. x + 1) st @ map (\<lambda>x. x + 1) en @ rest) =
           run_search nd np st en \<and>
         main_prog (nd # np # map (\<lambda>x. x + 1) st @ map (\<lambda>x. x + 1) st @ rest) =
           Some (Inr (0, []))"
proof -
  have 1: "read_state (nat nd) (map (\<lambda>x. x + 1) st @ ws) = Some (st, ws)" for ws
    using read_state_map[of st ws] assms(1) by simp
  have 2: "read_state (nat nd) (map (\<lambda>x. x + 1) en @ ws) = Some (en, ws)" for ws
    using read_state_map[of en ws] assms(2) by simp
  have 3: "run_search nd np st st = Some (Inr (0, []))"
  proof -
    obtain g1 where "BuildAndExplore (Graph_new nd np) st st = Some (Inr 0, g1)"
      using search_same_state by blast
    then show ?thesis by (simp add: run_search_def reconstruct_zero)
  qed
  show ?thesis by (simp add: main_prog_def 1 2 3)
qed

theorem malformed_input_is_searched_witness:
  "length [5 :: int] = nat 1 \<and> \<not> valid_input 1 (-3) [5] [5] \<and>
   main_prog [1, -3, 6, 6] = Some (Inr (0, []))"
  using malformed_input_is_searched[of "[5]" 1 "[5]" "-3" "[]", THEN conjunct2]
  by (simp add: valid_input_def)

theorem malformed_input_counterexample:
  "\<not> valid_input 1 3 [-1] [1] \<and> main_prog [1, 3, 0, 2] = Some (Inr (1, [(0, 2)]))"
proof -
  have "main_prog [1, 3, 0, 2] = Some (Inr (1, [(0, 2)]))" by code_simp
  then show ?thesis by (simp add: valid_input_def)
qed

text \<open>
  Claim C10 at its failing input: two disks on two pegs, from peg 0 to peg 1. The queue runs
  empty and the search leaves \<open>BuildAndExplore\<close> without a \<open>return\<close>.
\<close>

theorem unreachable_goal_no_return:
  "main_prog [2, 2, 1, 1, 2, 2] = Some (Inl NoReturnValue)"
  by code_simp

section \<open>How often an edge is recorded\<close>

lemma move_target_inj:
  assumes "legal_move pegs cs d p" "legal_move pegs cs d' p'" "cs[d := p] = cs[d' := p']"
  shows "d = d' \<and> p = p'"
proof -
  have d: "d < length cs" "p \<noteq> cs ! d" and d': "d' < length cs" "p' \<noteq> cs ! d'"
    using assms by (simp_all add: legal_move_def)
  have "d = d'"
  proof (rule ccontr)
    assume "d \<noteq> d'"
    then have "cs[d' := p'] ! d = cs ! d" by simp
    moreover have "cs[d := p] ! d = p" using d by simp
    ultimately show False using assms(3) d by simp
  qed
  moreover have "p = p'"
    using assms(3) d \<open>d = d'\<close> by (metis nth_list_update_eq)
  ultimately show ?thesis by simp
qed

lemma move_target_neq:
  assumes "legal_move pegs cs d p"
  shows "cs[d := p] \<noteq> cs"
  using assms by (metis legal_move_def nth_list_update_eq)

lemma visit_grey:
  assumes wf: "wf_graph n g" and cur: "cur < length (vtxList g)" and len: "length cs = n"
    and v: "visit cur cs d p (g, q) = (g', q')"
    and gr: "grey_inv g (cur # q)"
  shows "grey_inv g' (cur # q')"
proof -
  let ?vl = "vtxList g" and ?vl' = "vtxList g'"
  from wf cur len v show ?thesis
  proof (cases rule: visit_elim)
    case (old j)
    have same: "\<forall>i<length ?vl. color (?vl' ! i) = color (?vl ! i)"
      using old(5) by simp
    show ?thesis using gr same old(3,4) unfolding grey_inv_def by simp
  next
    case new
    let ?m = "length ?vl"
    have same: "\<forall>i<?m. color (?vl' ! i) = color (?vl ! i)"
      using new(5) by simp
    have newc: "color (?vl' ! ?m) = kVertexColor_Grey" using new(4) by simp
    have g1: "distinct (cur # q')"
      using gr new(1) unfolding grey_inv_def by auto
    have g2: "\<forall>c\<in>set (cur # q'). c < length ?vl'"
      using gr new(1,2) unfolding grey_inv_def by (auto simp: less_Suc_eq)
    have g3: "\<forall>i<length ?vl'. i \<in> set (cur # q') \<longleftrightarrow> color (?vl' ! i) = kVertexColor_Grey"
    proof (intro allI impI)
      fix i assume "i < length ?vl'"
      then consider "i < ?m" | "i = ?m" using new(2) by (auto simp: less_Suc_eq)
      then show "i \<in> set (cur # q') \<longleftrightarrow> color (?vl' ! i) = kVertexColor_Grey"
      proof cases
        case 1
        then show ?thesis using gr same new(1) unfolding grey_inv_def by auto
      next
        case 2
        then show ?thesis using newc new(1) by simp
      qed
    qed
    show ?thesis unfolding grey_inv_def using g1 g2 g3 by blast
  qed
qed


lemma nbrs_inv_extend:
  assumes nb: "nbrs_inv pegs g"
    and le: "length (vtxList g) \<le> length (vtxList g')"
    and same: "\<forall>i<length (vtxList g). state (vtxList g' ! i) = state (vtxList g ! i) \<and>
                 color (vtxList g' ! i) = color (vtxList g ! i)"
    and fresh: "\<forall>i<length (vtxList g'). length (vtxList g) \<le> i \<longrightarrow>
                 color (vtxList g' ! i) \<noteq> kVertexColor_Black"
  shows "nbrs_inv pegs g'"
  unfolding nbrs_inv_def
proof (intro allI impI)
  fix i s' assume i: "i < length (vtxList g')" and bl: "color (vtxList g' ! i) = kVertexColor_Black"
    and st: "step pegs (state (vtxList g' ! i)) s'"
  have il: "i < length (vtxList g)" using fresh i bl by (meson not_le)
  then have "color (vtxList g ! i) = kVertexColor_Black" "step pegs (state (vtxList g ! i)) s'"
    using same bl st by simp_all
  then have "s' \<in> state ` set (vtxList g)" using nb il by (simp add: nbrs_inv_def)
  then obtain k where "k < length (vtxList g)" "state (vtxList g ! k) = s'"
    by (auto simp: in_states_nth)
  then have "k < length (vtxList g') \<and> state (vtxList g' ! k) = s'" using le same by auto
  then show "s' \<in> state ` set (vtxList g')" unfolding in_states_nth by blast
qed

lemma visit_nbrs:
  assumes wf: "wf_graph n g" and cur: "cur < length (vtxList g)" and len: "length cs = n"
    and v: "visit cur cs d p (g, q) = (g', q')"
    and nb: "nbrs_inv pegs g"
  shows "nbrs_inv pegs g'"
proof -
  let ?vl = "vtxList g" and ?vl' = "vtxList g'"
  from wf cur len v show ?thesis
  proof (cases rule: visit_elim)
    case (old j)
    have same: "\<forall>i<length ?vl. state (?vl' ! i) = state (?vl ! i) \<and>
                 color (?vl' ! i) = color (?vl ! i)"
      using old(5) by simp
    show ?thesis using old(4) same by (intro nbrs_inv_extend[OF nb]) simp_all
  next
    case new
    let ?m = "length ?vl"
    have same: "\<forall>i<?m. state (?vl' ! i) = state (?vl ! i) \<and> color (?vl' ! i) = color (?vl ! i)"
      using new(5) by simp
    have newc: "color (?vl' ! ?m) = kVertexColor_Grey" using new(4) by simp
    show ?thesis
    proof (rule nbrs_inv_extend[OF nb _ same])
      show "length ?vl \<le> length ?vl'" using new(2) by simp
      show "\<forall>i<length ?vl'. ?m \<le> i \<longrightarrow> color (?vl' ! i) \<noteq> kVertexColor_Black"
      proof (intro allI impI)
        fix i assume "i < length ?vl'" "?m \<le> i"
        then have "i = ?m" using new(2) by simp
        then show "color (?vl' ! i) \<noteq> kVertexColor_Black" using newc by simp
      qed
    qed
  qed
qed

lemma visit_exact:
  assumes wf: "wf_graph n g" and cur: "cur < length (vtxList g)"
    and cs: "state (vtxList g ! cur) = cs"
    and v: "visit cur cs d p (g, q) = (g', q')"
    and legal: "legal_move pegs cs d p"
    and ed: "edges_inv g"
    and grey: "color (vtxList g ! cur) = kVertexColor_Grey"
    and fresh: "cs[d := p] \<notin> T"
    and nb: "nbrs_inv pegs g"
    and ex: "exact_inv pegs g cur T"
  shows "exact_inv pegs g' cur (insert (cs[d := p]) T)"
proof -
  let ?vl = "vtxList g" and ?vl' = "vtxList g'"
  let ?ns = "cs[d := p]"
  let ?T' = "insert ?ns T"
  have len: "length cs = n" using wf cur cs by (auto simp: wf_graph_nth)
  have uniq: "\<And>i j. i < length ?vl \<Longrightarrow> j < length ?vl \<Longrightarrow>
      state (?vl ! i) = state (?vl ! j) \<Longrightarrow> i = j"
    using wf by (simp add: wf_graph_nth)
  have bnd: "\<forall>i<length ?vl. \<forall>e\<in>set (edgeList (?vl ! i)). 0 \<le> e \<and> e < int (length ?vl)"
    using ed by (simp add: edges_inv_def)
  have old_eq: "count_list (edgeList (?vl ! i)) (int k) =
          recorded pegs g i k + recorded pegs g k i +
          (if i = cur \<and> state (?vl ! k) \<in> T then 1 else 0) +
          (if k = cur \<and> state (?vl ! i) \<in> T then 1 else 0)"
    if "i < length ?vl" "k < length ?vl" for i k
    using ex that by (simp add: exact_inv_def)
  from wf cur len v show ?thesis
  proof (cases rule: visit_elim)
    case (old j)
    have jc: "j \<noteq> cur" using old(2) cs move_target_neq[OF legal] by auto
    have E: "\<forall>i<length ?vl. edgeList (?vl' ! i) =
        (if i = j then [int cur] else []) @ (if i = cur then [int j] else []) @ edgeList (?vl ! i)"
      and st: "\<forall>i<length ?vl. state (?vl' ! i) = state (?vl ! i)"
      and col: "\<forall>i<length ?vl. color (?vl' ! i) = color (?vl ! i)"
      using old(5) by simp_all
    have rec: "recorded pegs g' i k = recorded pegs g i k"
      if "i < length ?vl" "k < length ?vl" for i k
      using st col that by (simp add: recorded_def)
    have inT: "state (?vl ! k) \<in> ?T' \<longleftrightarrow> k = j \<or> state (?vl ! k) \<in> T"
      if "k < length ?vl" for k
      using uniq[OF that old(1)] old(2) by auto
    have "count_list (edgeList (?vl' ! i)) (int k) =
          recorded pegs g' i k + recorded pegs g' k i +
          (if i = cur \<and> state (?vl' ! k) \<in> ?T' then 1 else 0) +
          (if k = cur \<and> state (?vl' ! i) \<in> ?T' then 1 else 0)"
      if ik: "i < length ?vl" "k < length ?vl" for i k
    proof -
      have e: "state (?vl' ! i) = state (?vl ! i)" "state (?vl' ! k) = state (?vl ! k)"
        "recorded pegs g' i k = recorded pegs g i k" "recorded pegs g' k i = recorded pegs g k i"
        using st rec ik by simp_all
      have nj: "state (?vl ! j) \<notin> T" using old(2) fresh by simp
      note ob = old_eq[OF ik]
      consider "i = j \<and> k = cur" | "i = cur \<and> k = j" | "\<not> (i = j \<and> k = cur) \<and> \<not> (i = cur \<and> k = j)"
        by blast
      then show ?thesis
      proof cases
        case 1
        then have "count_list (edgeList (?vl' ! i)) (int k) = Suc (count_list (edgeList (?vl ! i)) (int k))"
          using E ik jc by simp
        then show ?thesis
          unfolding e inT[OF ik(1)] inT[OF ik(2)] using ob 1 jc nj by simp
      next
        case 2
        then have "count_list (edgeList (?vl' ! i)) (int k) = Suc (count_list (edgeList (?vl ! i)) (int k))"
          using E ik jc by simp
        then show ?thesis
          unfolding e inT[OF ik(1)] inT[OF ik(2)] using ob 2 jc nj by simp
      next
        case 3
        then have c: "count_list (edgeList (?vl' ! i)) (int k) = count_list (edgeList (?vl ! i)) (int k)"
          using E ik by auto
        have t1: "(i = cur \<and> (k = j \<or> state (?vl ! k) \<in> T)) \<longleftrightarrow> (i = cur \<and> state (?vl ! k) \<in> T)"
          and t2: "(k = cur \<and> (i = j \<or> state (?vl ! i) \<in> T)) \<longleftrightarrow> (k = cur \<and> state (?vl ! i) \<in> T)"
          using 3 by blast+
        show ?thesis
          unfolding e inT[OF ik(1)] inT[OF ik(2)] c t1 t2 by (rule ob)
      qed
    qed
    then show ?thesis unfolding exact_inv_def old(4) by blast
  next
    case new
    let ?m = "length ?vl"
    have E: "\<forall>i<?m. edgeList (?vl' ! i) = (if i = cur then [int ?m] else []) @ edgeList (?vl ! i)"
      and st: "\<forall>i<?m. state (?vl' ! i) = state (?vl ! i)"
      and col: "\<forall>i<?m. color (?vl' ! i) = color (?vl ! i)"
      using new(5) by simp_all
    have Em: "edgeList (?vl' ! ?m) = [int cur]" and stm: "state (?vl' ! ?m) = ?ns"
      and colm: "color (?vl' ! ?m) = kVertexColor_Grey"
      using new(4) by simp_all
    have zero: "\<forall>i<?m. count_list (edgeList (?vl ! i)) (int ?m) = 0"
      using bnd by (auto simp: count_list_0_iff)
    have rec: "recorded pegs g' i k = recorded pegs g i k" if "i < ?m" "k < ?m" for i k
      using st col that by (simp add: recorded_def)
    have recm: "recorded pegs g' ?m k = 0" for k
      using colm by (simp add: recorded_def)
    have rec_to_m: "recorded pegs g' i ?m = 0" if i: "i < ?m" for i
    proof -
      have "\<not> (color (?vl ! i) = kVertexColor_Black \<and> step pegs (state (?vl ! i)) ?ns)"
        using nb i new(3) unfolding nbrs_inv_def by blast
      then show ?thesis using st col stm i by (auto simp: recorded_def)
    qed
    have notT: "state (?vl ! k) \<in> ?T' \<longleftrightarrow> state (?vl ! k) \<in> T" if "k < ?m" for k
      using new(3) that by (auto simp: in_states_nth)
    have "count_list (edgeList (?vl' ! i)) (int k) =
          recorded pegs g' i k + recorded pegs g' k i +
          (if i = cur \<and> state (?vl' ! k) \<in> ?T' then 1 else 0) +
          (if k = cur \<and> state (?vl' ! i) \<in> ?T' then 1 else 0)"
      if ik: "i < Suc ?m" "k < Suc ?m" for i k
    proof -
      consider "i < ?m" "k < ?m" | "i < ?m" "k = ?m" | "i = ?m" "k < ?m" | "i = ?m" "k = ?m"
        using ik by (auto simp: less_Suc_eq)
      then show ?thesis
      proof cases
        case 1
        have c: "count_list (edgeList (?vl' ! i)) (int k) = count_list (edgeList (?vl ! i)) (int k)"
          using E 1 by auto
        have e: "state (?vl' ! i) = state (?vl ! i)" "state (?vl' ! k) = state (?vl ! k)"
          "recorded pegs g' i k = recorded pegs g i k" "recorded pegs g' k i = recorded pegs g k i"
          using st rec 1 by simp_all
        show ?thesis
          unfolding c e old_eq[OF 1] notT[OF 1(1)] notT[OF 1(2)] by simp
      next
        case 2
        then have "count_list (edgeList (?vl' ! i)) (int k) = (if i = cur then 1 else 0)"
          using E zero by auto
        then show ?thesis using 2 stm recm rec_to_m cur by simp
      next
        case 3
        then have "count_list (edgeList (?vl' ! i)) (int k) = (if k = cur then 1 else 0)"
          using Em by auto
        then show ?thesis using 3 stm recm rec_to_m cur by simp
      next
        case 4
        then have "count_list (edgeList (?vl' ! i)) (int k) = 0"
          using Em cur by auto
        then show ?thesis using 4 recm cur by simp
      qed
    qed
    then show ?thesis unfolding exact_inv_def new(2) by blast
  qed
qed

lemma fold_invariant_prefix:
  assumes init: "P [] s"
    and step: "\<And>ys x zs s'. xs = ys @ x # zs \<Longrightarrow> P ys s' \<Longrightarrow> P (ys @ [x]) (f x s')"
  shows "P xs (fold f xs s)"
proof -
  have "xs = ys @ zs \<Longrightarrow> P ys (fold f ys s)" for ys zs
  proof (induction ys arbitrary: zs rule: rev_induct)
    case Nil
    then show ?case using init by simp
  next
    case (snoc x ys)
    have "P ys (fold f ys s)" using snoc.IH[of "x # zs"] snoc.prems by simp
    then show ?case using step[of ys x zs] snoc.prems by simp
  qed
  from this[of xs "[]"] show ?thesis by simp
qed

lemma blacken_exact:
  assumes ex: "exact_inv pegs g cur {s'. step pegs (state (vtxList g ! cur)) s'}"
    and cur: "cur < length (vtxList g)"
    and grey: "color (vtxList g ! cur) = kVertexColor_Grey"
    and irrefl: "\<not> step pegs (state (vtxList g ! cur)) (state (vtxList g ! cur))"
  shows "exact_inv pegs (modify cur (\<lambda>v. v\<lparr>color := kVertexColor_Black\<rparr>) g) c' {}"
proof -
  let ?g' = "modify cur (\<lambda>v. v\<lparr>color := kVertexColor_Black\<rparr>) g"
  let ?cs = "state (vtxList g ! cur)"
  have len: "length (vtxList ?g') = length (vtxList g)" by (simp add: modify_nth)
  have "count_list (edgeList (vtxList ?g' ! i)) (int k) =
          recorded pegs ?g' i k + recorded pegs ?g' k i"
    if ik: "i < length (vtxList g)" "k < length (vtxList g)" for i k
  proof -
    have ob: "count_list (edgeList (vtxList g ! i)) (int k) =
          recorded pegs g i k + recorded pegs g k i +
          (if i = cur \<and> step pegs ?cs (state (vtxList g ! k)) then 1 else 0) +
          (if k = cur \<and> step pegs ?cs (state (vtxList g ! i)) then 1 else 0)"
      using ex ik by (simp add: exact_inv_def)
    have e: "edgeList (vtxList ?g' ! i) = edgeList (vtxList g ! i)"
      using ik by (simp add: modify_nth)
    have r0: "recorded pegs g cur j = 0" for j using grey by (simp add: recorded_def)
    have r: "recorded pegs ?g' a b =
        (if a = cur then (if step pegs ?cs (state (vtxList g ! b)) then 1 else 0)
         else recorded pegs g a b)"
      if ab: "a < length (vtxList g)" "b < length (vtxList g)" for a b
    proof -
      have "state (vtxList ?g' ! a) = state (vtxList g ! a)"
        "state (vtxList ?g' ! b) = state (vtxList g ! b)"
        "color (vtxList ?g' ! a) = (if a = cur then kVertexColor_Black else color (vtxList g ! a))"
        using ab by (simp_all add: modify_nth)
      then show ?thesis unfolding recorded_def by simp
    qed
    show ?thesis
      unfolding e ob r[OF ik] r[OF ik(2) ik(1)] using r0 irrefl by auto
  qed
  then show ?thesis unfolding exact_inv_def len by simp
qed

lemma blacken_nbrs:
  assumes nb: "nbrs_inv pegs g" and cur: "cur < length (vtxList g)"
    and all: "\<forall>s'. step pegs (state (vtxList g ! cur)) s' \<longrightarrow> s' \<in> state ` set (vtxList g)"
  shows "nbrs_inv pegs (modify cur (\<lambda>v. v\<lparr>color := kVertexColor_Black\<rparr>) g)"
proof -
  let ?g' = "modify cur (\<lambda>v. v\<lparr>color := kVertexColor_Black\<rparr>) g"
  have len: "length (vtxList ?g') = length (vtxList g)" by (simp add: modify_nth)
  have sts: "state ` set (vtxList ?g') = state ` set (vtxList g)"
    using arg_cong[OF blacken_states[of cur g], of set] by simp
  have st: "\<forall>i<length (vtxList g). state (vtxList ?g' ! i) = state (vtxList g ! i)"
    and col: "\<forall>i<length (vtxList g). color (vtxList ?g' ! i) =
      (if i = cur then kVertexColor_Black else color (vtxList g ! i))"
    by (auto simp: modify_nth)
  show ?thesis
    unfolding nbrs_inv_def sts len
  proof (intro allI impI)
    fix i s' assume i: "i < length (vtxList g)"
      and bl: "color (vtxList ?g' ! i) = kVertexColor_Black"
      and s: "step pegs (state (vtxList ?g' ! i)) s'"
    have "i = cur \<or> color (vtxList g ! i) = kVertexColor_Black"
      using col i bl by (auto split: if_splits)
    then show "s' \<in> state ` set (vtxList g)"
      using all nb i s st unfolding nbrs_inv_def by auto
  qed
qed

lemma explore_vertex_edge_inv:
  assumes inv: "edge_inv n start (g, cur # rest)"
  shows "edge_inv n start (explore_vertex cur (g, rest))"
proof -
  let ?pegs = "numPegs g"
  let ?cs = "state (vtxList g ! cur)"
  let ?f = "\<lambda>m. visit cur ?cs (fst m) (snd m)"
  let ?ms = "move_list ?pegs ?cs"
  let ?tg = "\<lambda>m. ?cs[fst m := snd m]"
  have ri0: "run_inv n start (g, cur # rest)" and gr: "grey_inv g (cur # rest)"
    and nb0: "nbrs_inv ?pegs g" and ex0: "exact_inv ?pegs g 0 {}"
    using inv by (simp_all add: edge_inv_def)
  have cur: "cur < length (vtxList g)" and ri: "run_inv n start (g, rest)"
    using ri0 by (simp_all add: run_inv_def)
  have ex: "exact_inv ?pegs g cur {}" using ex0 by (simp add: exact_inv_def)
  let ?P = "\<lambda>ys s. run_inv n start s \<and> same_fields g (fst s) \<and> numPegs (fst s) = ?pegs \<and>
      grey_inv (fst s) (cur # snd s) \<and> nbrs_inv ?pegs (fst s) \<and>
      ?tg ` set ys \<subseteq> state ` set (vtxList (fst s)) \<and>
      exact_inv ?pegs (fst s) cur (?tg ` set ys)"
  have P: "?P ?ms (fold ?f ?ms (g, rest))"
  proof (rule fold_invariant_prefix[where P = ?P])
    show "?P [] (g, rest)" using ri gr nb0 ex by (simp add: same_fields_refl)
  next
    fix ys x zs s' assume split: "?ms = ys @ x # zs" and Ps: "?P ys s'"
    obtain g1 q1 where s: "s' = (g1, q1)" by (cases s')
    obtain g2 q2 where v: "visit cur ?cs (fst x) (snd x) (g1, q1) = (g2, q2)"
      by (cases "visit cur ?cs (fst x) (snd x) (g1, q1)")
    have sf: "same_fields g g1" and np1: "numPegs g1 = ?pegs"
      and ri1: "run_inv n start (g1, q1)" and gr1: "grey_inv g1 (cur # q1)"
      and nb1: "nbrs_inv ?pegs g1"
      and sub1: "?tg ` set ys \<subseteq> state ` set (vtxList g1)"
      and ex1: "exact_inv ?pegs g1 cur (?tg ` set ys)"
      using Ps s by simp_all
    have wf1: "wf_graph n g1" and ed1: "edges_inv g1" using ri1 by (simp_all add: run_inv_def)
    have c1: "cur < length (vtxList g1)" and st: "state (vtxList g1 ! cur) = ?cs"
      using sf cur by (auto simp: same_fields_def)
    have len: "length ?cs = n" using wf1 c1 st by (auto simp: wf_graph_nth)
    have xin: "x \<in> set ?ms" using split by simp
    have legal: "legal_move ?pegs ?cs (fst x) (snd x)"
      using xin by (auto simp: set_move_list)
    have legal1: "legal_move (numPegs g1) ?cs (fst x) (snd x)" using legal np1 by simp
    have greyc: "color (vtxList g1 ! cur) = kVertexColor_Grey"
      using gr1 c1 by (auto simp: grey_inv_def)
    have "x \<notin> set ys" using distinct_move_list[of ?pegs ?cs] split by auto
    have fresh: "?tg x \<notin> ?tg ` set ys"
    proof
      assume "?tg x \<in> ?tg ` set ys"
      then obtain y where y: "y \<in> set ys" "?tg x = ?tg y" by auto
      have "y \<in> set ?ms" using y(1) split by simp
      then have "legal_move ?pegs ?cs (fst y) (snd y)"
        by (auto simp: set_move_list)
      from move_target_inj[OF legal this y(2)] have "x = y" by (simp add: prod_eq_iff)
      then show False using y(1) \<open>x \<notin> set ys\<close> by simp
    qed
    note r = visit_run_inv[OF ri1 c1 st legal1, unfolded v]
    note fm = visit_frame[OF wf1 c1 len v]
    have sf12: "same_fields g1 g2" using r(2) by simp
    have "grey_inv g2 (cur # q2)" by (rule visit_grey[OF wf1 c1 len v gr1])
    moreover have "nbrs_inv ?pegs g2" by (rule visit_nbrs[OF wf1 c1 len v nb1])
    moreover have "?tg ` set (ys @ [x]) \<subseteq> state ` set (vtxList g2)"
      using sub1 fm(6) same_fields_states[OF sf12] by auto
    moreover have "exact_inv ?pegs g2 cur (?tg ` set (ys @ [x]))"
      using visit_exact[OF wf1 c1 st v legal ed1 greyc fresh nb1 ex1] by simp
    ultimately show "?P (ys @ [x]) (?f x s')"
      unfolding s v using r sf np1 by (auto intro: same_fields_trans)
  qed
  obtain g1 q1 where s1: "fold ?f ?ms (g, rest) = (g1, q1)" by (cases "fold ?f ?ms (g, rest)")
  have ev: "explore_vertex cur (g, rest) =
       (modify cur (\<lambda>v. v\<lparr>color := kVertexColor_Black\<rparr>) g1, q1)"
    by (simp add: explore_vertex_fold s1)
  have sf: "same_fields g g1" and gr1: "grey_inv g1 (cur # q1)"
    and nb1: "nbrs_inv ?pegs g1"
    and sub1: "?tg ` set ?ms \<subseteq> state ` set (vtxList g1)"
    and ex1: "exact_inv ?pegs g1 cur (?tg ` set ?ms)"
    using P s1 by simp_all
  have c1: "cur < length (vtxList g1)" and st: "state (vtxList g1 ! cur) = ?cs"
    using sf cur by (auto simp: same_fields_def)
  have greyc: "color (vtxList g1 ! cur) = kVertexColor_Grey"
    using gr1 c1 by (auto simp: grey_inv_def)
  have targets: "?tg ` set ?ms = {s'. step ?pegs ?cs s'}"
  proof (intro set_eqI iffI)
    fix s' assume "s' \<in> ?tg ` set ?ms"
    then obtain m where "m \<in> set ?ms" "s' = ?tg m" by blast
    then have "legal_move ?pegs ?cs (fst m) (snd m) \<and> s' = ?cs[fst m := snd m]"
      by (auto simp: set_move_list)
    then show "s' \<in> {s'. step ?pegs ?cs s'}" unfolding step_def by blast
  next
    fix s' assume "s' \<in> {s'. step ?pegs ?cs s'}"
    then obtain d p where dp: "legal_move ?pegs ?cs d p" "s' = ?cs[d := p]"
      unfolding step_def by blast
    then have "(d, p) \<in> set ?ms" by (simp add: set_move_list)
    then show "s' \<in> ?tg ` set ?ms" using dp(2) by force
  qed
  have irrefl: "\<not> step ?pegs ?cs ?cs"
  proof
    assume "step ?pegs ?cs ?cs"
    then obtain d p where "legal_move ?pegs ?cs d p" "?cs = ?cs[d := p]"
      unfolding step_def by blast
    then show False using move_target_neq[of ?pegs ?cs d p] by simp
  qed
  have a: "run_inv n start (explore_vertex cur (g, rest))"
    by (rule explore_vertex_run_inv(1)[OF ri cur])
  have np: "numPegs (fst (explore_vertex cur (g, rest))) = ?pegs"
    by (rule explore_vertex_run_inv(3)[OF ri cur])
  have b: "grey_inv (fst (explore_vertex cur (g, rest))) (snd (explore_vertex cur (g, rest)))"
  proof -
    let ?g' = "modify cur (\<lambda>v. v\<lparr>color := kVertexColor_Black\<rparr>) g1"
    have col: "\<forall>i<length (vtxList g1). color (vtxList ?g' ! i) =
        (if i = cur then kVertexColor_Black else color (vtxList g1 ! i))"
      by (auto simp: modify_nth)
    have len: "length (vtxList ?g') = length (vtxList g1)" by (simp add: modify_nth)
    have "cur \<notin> set q1" "distinct q1" using gr1 by (simp_all add: grey_inv_def)
    then have "grey_inv ?g' q1"
      using gr1 col unfolding grey_inv_def len by auto
    then show ?thesis by (simp add: ev)
  qed
  have c: "nbrs_inv ?pegs (fst (explore_vertex cur (g, rest)))"
    unfolding ev using blacken_nbrs[OF nb1 c1] sub1 targets st by auto
  have d: "exact_inv ?pegs (fst (explore_vertex cur (g, rest))) 0 {}"
    unfolding ev using blacken_exact[OF _ c1 greyc] ex1 targets st irrefl by simp
  show ?thesis unfolding edge_inv_def using a b c d np by simp
qed

text \<open>A property kept by every pass of the loop body holds when the loop returns.\<close>

lemma bfs_loop_invariant:
  assumes ret: "bfs_loop goal s = Some r" and init: "I s"
    and pass: "\<And>g cur rest. I (g, cur # rest) \<Longrightarrow> I (explore_vertex cur (g, rest))"
  shows "\<exists>q. I (snd r, q)"
proof -
  have "I s \<longrightarrow> (\<exists>q. I (snd r, q))"
  proof (rule bfs_loop.raw_induct[where P = "\<lambda>goal s r. I s \<longrightarrow> (\<exists>q. I (snd r, q))", OF _ ret])
    fix loop :: "int list \<Rightarrow> Graph \<times> nat list \<Rightarrow> ((error + int) \<times> Graph) option"
    fix goal s r
    assume IH: "\<And>e b y. loop e b = Some y \<Longrightarrow> I b \<longrightarrow> (\<exists>q. I (snd y, q))"
      and body: "(case snd s of [] \<Rightarrow> Some (Inl NoReturnValue, fst s)
         | curVtx # rest \<Rightarrow>
          let s1 = explore_vertex curVtx (fst s, rest)
          in if std_equal (state (deref (fst s1) curVtx)) goal
             then Some (Inr (distance (deref (fst s1) curVtx)), fst s1)
             else loop goal s1) = Some r"
    show "I s \<longrightarrow> (\<exists>q. I (snd r, q))"
    proof
      assume Is: "I s"
      show "\<exists>q. I (snd r, q)"
      proof (cases "snd s")
        case Nil
        then have "r = (Inl NoReturnValue, fst s)" using body by simp
        then have "I (snd r, [])" using Is Nil by (metis prod.collapse snd_conv)
        then show ?thesis by blast
      next
        case (Cons cur rest)
        let ?s1 = "explore_vertex cur (fst s, rest)"
        have "I (fst s, cur # rest)" using Is Cons by (metis prod.collapse)
        then have I1: "I ?s1" by (rule pass)
        show ?thesis
        proof (cases "std_equal (state (deref (fst ?s1) cur)) goal")
          case True
          then have "snd r = fst ?s1" using body Cons by (auto simp: Let_def)
          then have "I (snd r, snd ?s1)" using I1 by simp
          then show ?thesis by blast
        next
          case False
          then have "loop goal ?s1 = Some r" using body Cons by (simp add: Let_def)
          from IH[OF this] I1 show ?thesis by simp
        qed
      qed
    qed
  qed
  then show ?thesis using init by simp
qed

lemma edge_inv_seeded: "edge_inv (length start) start (seeded g start, [0])"
  unfolding edge_inv_def using run_inv_seeded[of start g]
  by (simp add: seeded_def grey_inv_def nbrs_inv_def exact_inv_def recorded_def)

lemma visit_visit_records:
  assumes cur: "cur < length (vtxList (fst s))"
  shows "visit_records cur (fst (GetVertex (fst s) (cs[d := p])))
           (snd (GetVertex (fst s) (cs[d := p]))) (fst (visit cur cs d p s))"
proof -
  obtain nv g1 where gv: "GetVertex (fst s) (cs[d := p]) = (nv, g1)"
    by (cases "GetVertex (fst s) (cs[d := p])")
  have nv: "nv < length (vtxList g1)"
    using GetVertex_valid[of "fst s" "cs[d := p]"] gv by simp
  have c1: "cur < length (vtxList g1)"
    using GetVertex_nth(2)[of "fst s" "cs[d := p]"] gv cur by simp
  show ?thesis
    unfolding visit_records_def visit_def gv Let_def
    using nv c1 by (auto simp: modify_nth deref_def)
qed

lemma search_edge_counts:
  assumes "BuildAndExplore g start goal = Some (r, g')"
  shows "\<forall>i<length (vtxList g').
           (\<forall>e\<in>set (edgeList (vtxList g' ! i)). \<exists>j<length (vtxList g'). index (vtxList g' ! j) = e) \<and>
           (\<forall>j<length (vtxList g').
              count_list (edgeList (vtxList g' ! i)) (index (vtxList g' ! j)) =
                (if color (vtxList g' ! i) = kVertexColor_Black \<and>
                    step (numPegs g) (state (vtxList g' ! i)) (state (vtxList g' ! j))
                 then 1 else 0) +
                (if color (vtxList g' ! j) = kVertexColor_Black \<and>
                    step (numPegs g) (state (vtxList g' ! j)) (state (vtxList g' ! i))
                 then 1 else 0) \<and>
              count_list (edgeList (vtxList g' ! i)) (index (vtxList g' ! j)) =
              count_list (edgeList (vtxList g' ! j)) (index (vtxList g' ! i)) \<and>
              count_list (edgeList (vtxList g' ! i)) (index (vtxList g' ! j)) \<le> 2)"
proof -
  have ret: "bfs_loop goal (seeded g start, [0]) = Some (r, g')"
    using assms by (simp add: BuildAndExplore_seeded)
  from bfs_loop_invariant[where I = "edge_inv (length start) start", OF ret edge_inv_seeded
      explore_vertex_edge_inv]
  obtain q where inv: "edge_inv (length start) start (g', q)" by auto
  have np: "numPegs g' = numPegs g" by (rule BuildAndExplore_final(2)[OF assms])
  have wf: "wf_graph (length start) g'" and ed: "edges_inv g'"
    and ex: "exact_inv (numPegs g) g' 0 {}"
    using inv np by (simp_all add: edge_inv_def run_inv_def)
  have idx: "\<forall>j<length (vtxList g'). index (vtxList g' ! j) = int j"
    using wf by (simp add: wf_graph_nth)
  show ?thesis
  proof (intro allI impI conjI ballI)
    fix i e assume i: "i < length (vtxList g')" and e: "e \<in> set (edgeList (vtxList g' ! i))"
    then have "0 \<le> e \<and> e < int (length (vtxList g'))" using ed by (simp add: edges_inv_def)
    then have ne: "nat e < length (vtxList g')" "int (nat e) = e" by linarith+
    then have "index (vtxList g' ! nat e) = e" using idx by auto
    with ne have "nat e < length (vtxList g') \<and> index (vtxList g' ! nat e) = e" by simp
    then show "\<exists>j<length (vtxList g'). index (vtxList g' ! j) = e" by blast
  next
    fix i j assume ij: "i < length (vtxList g')" "j < length (vtxList g')"
    have c: "count_list (edgeList (vtxList g' ! i)) (int j) =
        recorded (numPegs g) g' i j + recorded (numPegs g) g' j i"
      using ex ij by (simp add: exact_inv_def)
    show "count_list (edgeList (vtxList g' ! i)) (index (vtxList g' ! j)) =
                (if color (vtxList g' ! i) = kVertexColor_Black \<and>
                    step (numPegs g) (state (vtxList g' ! i)) (state (vtxList g' ! j))
                 then 1 else 0) +
                (if color (vtxList g' ! j) = kVertexColor_Black \<and>
                    step (numPegs g) (state (vtxList g' ! j)) (state (vtxList g' ! i))
                 then 1 else 0)"
      using c idx ij by (simp add: recorded_def)
    show "count_list (edgeList (vtxList g' ! i)) (index (vtxList g' ! j)) =
              count_list (edgeList (vtxList g' ! j)) (index (vtxList g' ! i))"
      using ed idx ij by (simp add: edges_inv_def)
    show "count_list (edgeList (vtxList g' ! i)) (index (vtxList g' ! j)) \<le> 2"
      using c idx ij by (simp add: recorded_def)
  qed
qed

text \<open>
  Claim C6, as amended. An edge is recorded at every traversal, the first and the later ones
  alike: every visit, whatever the colour of the vertex it reaches, puts the index of that
  vertex in front of the edge list of the current vertex and the index of the current vertex
  in front of the edge list of that vertex. When the search is over, every entry of an edge
  list is the index of a vertex; the edge list of a vertex \<open>i\<close> holds for a vertex \<open>j\<close>
  exactly one entry if \<open>i\<close> has been explored and a legal move leads from \<open>i\<close> to \<open>j\<close>, and
  one entry more if \<open>j\<close> has been explored and a legal move leads from \<open>j\<close> to \<open>i\<close>; that
  makes as many entries as the edge list of \<open>j\<close> holds for \<open>i\<close>, and never more than two.
\<close>

theorem edges_recorded_symmetrically:
  "(curVtx < length (vtxList (fst s)) \<longrightarrow>
      visit_records curVtx (fst (GetVertex (fst s) (curState[diskRad := peg])))
        (snd (GetVertex (fst s) (curState[diskRad := peg])))
        (fst (visit curVtx curState diskRad peg s))) \<and>
   (BuildAndExplore g start goal = Some (r, g') \<longrightarrow>
      (\<forall>i<length (vtxList g').
         (\<forall>e\<in>set (edgeList (vtxList g' ! i)). \<exists>j<length (vtxList g'). index (vtxList g' ! j) = e) \<and>
         (\<forall>j<length (vtxList g').
            count_list (edgeList (vtxList g' ! i)) (index (vtxList g' ! j)) =
              (if color (vtxList g' ! i) = kVertexColor_Black \<and>
                  step (numPegs g) (state (vtxList g' ! i)) (state (vtxList g' ! j))
               then 1 else 0) +
              (if color (vtxList g' ! j) = kVertexColor_Black \<and>
                  step (numPegs g) (state (vtxList g' ! j)) (state (vtxList g' ! i))
               then 1 else 0) \<and>
            count_list (edgeList (vtxList g' ! i)) (index (vtxList g' ! j)) =
            count_list (edgeList (vtxList g' ! j)) (index (vtxList g' ! i)) \<and>
            count_list (edgeList (vtxList g' ! i)) (index (vtxList g' ! j)) \<le> 2)))"
proof (intro conjI impI)
  assume "curVtx < length (vtxList (fst s))"
  then show "visit_records curVtx (fst (GetVertex (fst s) (curState[diskRad := peg])))
        (snd (GetVertex (fst s) (curState[diskRad := peg])))
        (fst (visit curVtx curState diskRad peg s))"
    by (rule visit_visit_records)
next
  assume "BuildAndExplore g start goal = Some (r, g')"
  then show "\<forall>i<length (vtxList g').
         (\<forall>e\<in>set (edgeList (vtxList g' ! i)). \<exists>j<length (vtxList g'). index (vtxList g' ! j) = e) \<and>
         (\<forall>j<length (vtxList g').
            count_list (edgeList (vtxList g' ! i)) (index (vtxList g' ! j)) =
              (if color (vtxList g' ! i) = kVertexColor_Black \<and>
                  step (numPegs g) (state (vtxList g' ! i)) (state (vtxList g' ! j))
               then 1 else 0) +
              (if color (vtxList g' ! j) = kVertexColor_Black \<and>
                  step (numPegs g) (state (vtxList g' ! j)) (state (vtxList g' ! i))
               then 1 else 0) \<and>
            count_list (edgeList (vtxList g' ! i)) (index (vtxList g' ! j)) =
            count_list (edgeList (vtxList g' ! j)) (index (vtxList g' ! i)) \<and>
            count_list (edgeList (vtxList g' ! i)) (index (vtxList g' ! j)) \<le> 2)"
    by (rule search_edge_counts)
qed

theorem edges_recorded_symmetrically_witness:
  "(0 :: nat) < length (vtxList one_disk_graph) \<and>
   GetVertex one_disk_graph [1] = (1, one_disk_graph) \<and>
   color (vtxList one_disk_graph ! 1) = kVertexColor_Black \<and>
   edgeList (vtxList (fst (visit 0 [0] 0 1 (one_disk_graph, []))) ! 0) =
     1 # edgeList (vtxList one_disk_graph ! 0) \<and>
   edgeList (vtxList (fst (visit 0 [0] 0 1 (one_disk_graph, []))) ! 1) =
     0 # edgeList (vtxList one_disk_graph ! 1) \<and>
   edgeList (vtxList (fst (visit 0 [0] 0 1 (one_disk_graph, []))) ! 2) =
     edgeList (vtxList one_disk_graph ! 2) \<and>
   BuildAndExplore (Graph_new 1 3) [0] [2] = Some (Inr 1, one_disk_graph) \<and>
   color (vtxList one_disk_graph ! 0) = kVertexColor_Black \<and>
   step 3 [0] [1] \<and> step 3 [1] [0] \<and>
   count_list (edgeList (vtxList one_disk_graph ! 0)) (index (vtxList one_disk_graph ! 1)) = 2 \<and>
   count_list (edgeList (vtxList one_disk_graph ! 0)) (index (vtxList one_disk_graph ! 1)) =
   count_list (edgeList (vtxList one_disk_graph ! 1)) (index (vtxList one_disk_graph ! 0))"
proof -
  have l: "0 < length (vtxList one_disk_graph)" "1 < length (vtxList one_disk_graph)"
    "2 < length (vtxList one_disk_graph)"
    by (simp_all add: one_disk_graph_def)
  have gv: "GetVertex one_disk_graph [1] = (1, one_disk_graph)"
    by code_simp
  have col: "color (vtxList one_disk_graph ! 0) = kVertexColor_Black"
    "color (vtxList one_disk_graph ! 1) = kVertexColor_Black"
    "state (vtxList one_disk_graph ! 0) = [0]" "state (vtxList one_disk_graph ! 1) = [1]"
    "index (vtxList one_disk_graph ! 0) = 0" "index (vtxList one_disk_graph ! 1) = 1"
    by (simp_all add: one_disk_graph_def)
  have "legal_move 3 [0] 0 1" "legal_move 3 [1] 0 0" by (simp_all add: legal_move_def)
  then have st: "step 3 [0] [1]" "step 3 [1] [0]"
    unfolding step_def by force+
  have np: "numPegs (Graph_new 1 3) = 3" by (simp add: Graph_new_def)
  note t = edges_recorded_symmetrically[of 0 "(one_disk_graph, [])" "[0]" 0 1
      "Graph_new 1 3" "[0]" "[2]" "Inr 1" one_disk_graph]
  have vr: "visit_records 0 1 one_disk_graph (fst (visit 0 [0] 0 1 (one_disk_graph, [])))"
    using t l(1) gv by simp
  have v: "edgeList (vtxList (fst (visit 0 [0] 0 1 (one_disk_graph, []))) ! 0) =
     1 # edgeList (vtxList one_disk_graph ! 0)"
   "edgeList (vtxList (fst (visit 0 [0] 0 1 (one_disk_graph, []))) ! 1) =
     0 # edgeList (vtxList one_disk_graph ! 1)"
   "edgeList (vtxList (fst (visit 0 [0] 0 1 (one_disk_graph, []))) ! 2) =
     edgeList (vtxList one_disk_graph ! 2)"
    using vr l col(5,6) unfolding visit_records_def by auto
  from t one_disk_run l
  have "count_list (edgeList (vtxList one_disk_graph ! 0)) (index (vtxList one_disk_graph ! 1)) =
                (if color (vtxList one_disk_graph ! 0) = kVertexColor_Black \<and>
                    step (numPegs (Graph_new 1 3)) (state (vtxList one_disk_graph ! 0))
                      (state (vtxList one_disk_graph ! 1))
                 then 1 else 0) +
                (if color (vtxList one_disk_graph ! 1) = kVertexColor_Black \<and>
                    step (numPegs (Graph_new 1 3)) (state (vtxList one_disk_graph ! 1))
                      (state (vtxList one_disk_graph ! 0))
                 then 1 else 0) \<and>
        count_list (edgeList (vtxList one_disk_graph ! 0)) (index (vtxList one_disk_graph ! 1)) =
        count_list (edgeList (vtxList one_disk_graph ! 1)) (index (vtxList one_disk_graph ! 0))"
    by blast
  then show ?thesis using one_disk_run col st np l(1) gv v by simp
qed

text \<open>
  The claim as it was written fails on the smallest search. For one disk on three pegs, from
  peg 0 to peg 2, the edge between the states \<open>[0]\<close> and \<open>[1]\<close> is traversed from either
  side, and the edge list of the first vertex ends with two entries for the second.
\<close>

theorem edge_recorded_twice_counterexample:
  "BuildAndExplore (Graph_new 1 3) [0] [2] = Some (Inr 1, one_disk_graph) \<and>
   count_list (edgeList (deref one_disk_graph 0)) (index (deref one_disk_graph 1)) = 2"
proof -
  have "BuildAndExplore (Graph_new 1 3) [0] [2] = Some (Inr 1, one_disk_graph)" by code_simp
  moreover have "count_list (edgeList (deref one_disk_graph 0)) (index (deref one_disk_graph 1)) = 2"
    by code_simp
  ultimately show ?thesis by simp
qed

section \<open>The classic puzzle\<close>

lemma classic_1: "map_option fst (BuildAndExplore (Graph_new 1 3) [0] [2]) = Some (Inr 1)"
  by code_simp

lemma classic_2: "map_option fst (BuildAndExplore (Graph_new 2 3) [0, 0] [2, 2]) = Some (Inr 3)"
  by code_simp

lemma classic_3:
  "map_option fst (BuildAndExplore (Graph_new 3 3) [0, 0, 0] [2, 2, 2]) = Some (Inr 7)"
  by code_simp

lemma classic_4:
  "map_option fst (BuildAndExplore (Graph_new 4 3) [0, 0, 0, 0] [2, 2, 2, 2]) = Some (Inr 15)"
  by code_simp

text \<open>
  Claim C1. For one to four disks on three pegs, all on peg 0 at the start and all on peg 2
  at the goal, the search returns \<open>2 ^ N - 1\<close>.
\<close>

theorem classic_hanoi_distance:
  assumes "N \<in> {1, 2, 3, 4}"
  shows "map_option fst (BuildAndExplore (Graph_new (int N) 3) (replicate N 0) (replicate N 2)) =
         Some (Inr (2 ^ N - 1))"
proof -
  from assms consider "N = 1" | "N = 2" | "N = 3" | "N = 4" by auto
  then show ?thesis
  proof cases
    case 1
    then show ?thesis using classic_1 by simp
  next
    case 2
    then show ?thesis using classic_2 by (simp add: numeral_2_eq_2)
  next
    case 3
    then show ?thesis using classic_3 by (simp add: numeral_3_eq_3)
  next
    case 4
    have "replicate 4 x = [x, x, x, x]" for x :: int
      by (simp add: numeral_eq_Suc)
    then show ?thesis using 4 classic_4 by simp
  qed
qed

theorem classic_hanoi_distance_witness:
  "(3 :: nat) \<in> {1, 2, 3, 4} \<and>
   map_option fst (BuildAndExplore (Graph_new 3 3) [0, 0, 0] [2, 2, 2]) = Some (Inr 7)"
  using classic_hanoi_distance[of 3] by (simp add: numeral_3_eq_3)

end
